theory Spec2Isabelle
  imports Main "HOL-Library.More_List" "HOL-Library.AList"
begin

section \<open>JavaScript strings\<close>

text \<open>
  A JavaScript string is a sequence of UTF-16 code units. The model uses \<^typ>\<open>string\<close>,
  so a \<^typ>\<open>char\<close> stands for a code unit in the range U+0000 .. U+00FF. Everything
  the scanner, the parser and the writer test for (\<open>=\<close>, \<open>#\<close>, quotes, the
  backslash, line feed, the letters of a variable name) lies in that range.
\<close>

abbreviation LF :: char where "LF \<equiv> CHR 0x0A"
abbreviation DQUOTE :: char where "DQUOTE \<equiv> CHR 0x22"
abbreviation SQUOTE :: char where "SQUOTE \<equiv> CHR 0x27"
abbreviation BACKSLASH :: char where "BACKSLASH \<equiv> CHR 0x5C"
abbreviation BACKTICK :: char where "BACKTICK \<equiv> CHR 0x60"

text \<open>
  The characters that \<open>String.prototype.trim\<close> strips and that the class \<open>\s\<close> of a
  regular expression matches (WhiteSpace and LineTerminator of ECMAScript), as far as
  they are in the range of \<^typ>\<open>char\<close>: TAB, LF, VT, FF, CR, SPACE and NBSP.
\<close>

definition isWhiteSpace :: "char \<Rightarrow> bool" where
  "isWhiteSpace c =
     (c = CHR 0x09 \<or> c = LF \<or> c = CHR 0x0B \<or> c = CHR 0x0C \<or> c = CHR 0x0D
      \<or> c = CHR 0x20 \<or> c = CHR 0xA0)"

definition trim :: "string \<Rightarrow> string" where
  "trim s = strip_while isWhiteSpace (dropWhile isWhiteSpace s)"

definition startsWith :: "string \<Rightarrow> string \<Rightarrow> bool" where
  "startsWith s p = (take (length p) s = p)"

definition endsWith :: "string \<Rightarrow> string \<Rightarrow> bool" where
  "endsWith s p = (length p \<le> length s \<and> drop (length s - length p) s = p)"

text \<open>\<open>s.indexOf(c)\<close> for a one-character needle; \<open>None\<close> is the result \<open>-1\<close>.\<close>

fun indexOf :: "string \<Rightarrow> char \<Rightarrow> nat option" where
  "indexOf [] c = None"
| "indexOf (x # xs) c =
     (if x = c then Some 0 else map_option Suc (indexOf xs c))"

text \<open>\<open>s.slice(1, -1)\<close>: without the first and the last code unit; empty when \<open>s\<close>
  has fewer than two.\<close>

definition slice_1_m1 :: "string \<Rightarrow> string" where
  "slice_1_m1 s = butlast (tl s)"

text \<open>\<open>s.split(sep)\<close> for a one-character separator: never the empty array.\<close>

fun split :: "char \<Rightarrow> string \<Rightarrow> string list" where
  "split sep [] = [[]]"
| "split sep (c # cs) =
     (if c = sep then [] # split sep cs
      else case split sep cs of
             l # ls \<Rightarrow> (c # l) # ls
           | [] \<Rightarrow> [[c]])"

text \<open>\<open>xs.join(sep)\<close> for a one-character separator.\<close>

fun join :: "char \<Rightarrow> string list \<Rightarrow> string" where
  "join sep [] = []"
| "join sep [x] = x"
| "join sep (x # y # ys) = x @ sep # join sep (y # ys)"

text \<open>\<open>s.replace(/\n+$/, "")\<close>: the pattern has no \<open>m\<close> flag, so \<open>$\<close> is the end of
  the input, and the leftmost match is the whole trailing run of line feeds.\<close>

definition stripTrailingNewlines :: "string \<Rightarrow> string" where
  "stripTrailingNewlines s = strip_while (\<lambda>c. c = LF) s"

text \<open>\<open>s.replace(/c/g, r)\<close> for a one-character pattern.\<close>

definition replaceAll :: "char \<Rightarrow> string \<Rightarrow> string \<Rightarrow> string" where
  "replaceAll c r s = concat (map (\<lambda>x. if x = c then r else [x]) s)"

section \<open>writer.js: value formatting\<close>

text \<open>
  The values that reach the writer are strings; \<open>Undefined\<close> stands for every value
  that is falsy without being the empty string (\<open>undefined\<close>, \<open>null\<close>), which the
  first guard of \<open>formatValue\<close> is written for.
\<close>

datatype jsvalue = Undefined | Str string

text \<open>The class \<open>[\s#=\\$"'`!]\<close> of \<open>needsQuotes\<close>.\<close>

definition quoteTrigger :: "char \<Rightarrow> bool" where
  "quoteTrigger c =
     (isWhiteSpace c \<or> c = CHR ''#'' \<or> c = CHR ''='' \<or> c = BACKSLASH \<or> c = CHR ''$''
      \<or> c = DQUOTE \<or> c = SQUOTE \<or> c = BACKTICK \<or> c = CHR ''!'')"

text \<open>\<open>!value\<close> holds of \<open>Undefined\<close> and of the empty string.\<close>

fun needsQuotes :: "jsvalue \<Rightarrow> bool" where
  "needsQuotes Undefined = False"
| "needsQuotes (Str s) =
     (if s = [] then False else (list_ex quoteTrigger s \<or> LF \<in> set s))"

definition escapeValue :: "string \<Rightarrow> string" where
  "escapeValue s =
     replaceAll LF [BACKSLASH, CHR ''n'']
       (replaceAll DQUOTE [BACKSLASH, DQUOTE]
         (replaceAll BACKSLASH [BACKSLASH, BACKSLASH] s))"

text \<open>The guard \<open>!value && value !== ""\<close> holds of \<open>Undefined\<close> and of no string.\<close>

fun formatValue :: "jsvalue \<Rightarrow> string" where
  "formatValue Undefined = [DQUOTE, DQUOTE]"
| "formatValue (Str s) =
     (if needsQuotes (Str s) then DQUOTE # escapeValue s @ [DQUOTE] else s)"


section \<open>scanner.js: the configuration parser\<close>

text \<open>
  A \<open>Map\<close> with string keys keeps its entries in insertion order, and \<open>set\<close> on a
  key that is present replaces the value where the entry stands: an association list
  with \<^const>\<open>AList.update\<close>. The file at the path is \<open>None\<close> when
  \<open>fs.existsSync\<close> is false, otherwise its content.
\<close>

type_synonym env = "(string \<times> string) list"

definition has :: "('k \<times> 'v) list \<Rightarrow> 'k \<Rightarrow> bool" where
  "has m k = (map_of m k \<noteq> None)"

text \<open>The body of the loop of \<open>parseExistingEnv\<close> over the lines.\<close>

definition parseLine :: "env \<Rightarrow> string \<Rightarrow> env" where
  "parseLine existing line =
     (let trimmed = trim line in
      if trimmed = [] \<or> startsWith trimmed ''#'' then existing
      else case indexOf trimmed CHR ''='' of
        None \<Rightarrow> existing
      | Some eqIndex \<Rightarrow>
          (let key = trim (take eqIndex trimmed);
               val = trim (drop (eqIndex + 1) trimmed);
               val' = (if (startsWith val [DQUOTE] \<and> endsWith val [DQUOTE])
                          \<or> (startsWith val [SQUOTE] \<and> endsWith val [SQUOTE])
                       then slice_1_m1 val else val)
           in AList.update key val' existing))"

definition parseExistingEnv :: "string option \<Rightarrow> env" where
  "parseExistingEnv file =
     (case file of
        None \<Rightarrow> []
      | Some content \<Rightarrow> foldl parseLine [] (split LF content))"

section \<open>ui.js: reconciliation\<close>

record scanSummary =
  total :: int
  alreadySet :: int
  missing :: int

text \<open>The values of the map are strings, so \<open>typeof value === "string"\<close> holds.\<close>

definition hasUsableValue :: "env \<Rightarrow> string \<Rightarrow> bool" where
  "hasUsableValue existingEnv key =
     (if \<not> has existingEnv key then False
      else length (trim (the (map_of existingEnv key))) > 0)"

text \<open>\<open>foundVars\<close> maps a name to the set of files it was found in; what
  \<open>showScanResult\<close> prints is left out, what it returns is kept.\<close>

definition showScanResult :: "(string \<times> string list) list \<Rightarrow> env \<Rightarrow> scanSummary" where
  "showScanResult foundVars existingEnv =
     (let total = int (length foundVars);
          alreadySet = int (length (filter (hasUsableValue existingEnv) (map fst foundVars)));
          missing = total - alreadySet
      in \<lparr>total = total, alreadySet = alreadySet, missing = missing\<rparr>)"

section \<open>writer.js: writeEnvFile\<close>

text \<open>
  The key that the loop of \<open>writeEnvFile\<close> looks up for a line: \<open>None\<close> when the
  loop continues before it reaches \<open>newVars.has(key)\<close>.
\<close>

definition lineKey :: "string \<Rightarrow> string option" where
  "lineKey l =
     (let line = trim l in
      if line = [] \<or> startsWith line ''#'' then None
      else case indexOf line CHR ''='' of
        None \<Rightarrow> None
      | Some eqIndex \<Rightarrow> Some (trim (take eqIndex line)))"

text \<open>\<open>`${key}=${formatValue(value)}`\<close>\<close>

definition entryLine :: "string \<Rightarrow> string \<Rightarrow> string" where
  "entryLine key val = key @ ''='' @ formatValue (Str val)"

text \<open>
  The loop over \<open>lines\<close>: it returns the lines, patched where they stand, and
  \<open>updatedKeys\<close>, a \<open>Set\<close>, as the list of its elements in insertion order.
\<close>

fun updateLines :: "env \<Rightarrow> string list \<Rightarrow> string list \<Rightarrow> string list \<times> string list" where
  "updateLines newVars [] updatedKeys = ([], updatedKeys)"
| "updateLines newVars (l # ls) updatedKeys =
     (case lineKey l of
        None \<Rightarrow>
          (let (ls', u) = updateLines newVars ls updatedKeys in (l # ls', u))
      | Some key \<Rightarrow>
          if has newVars key then
            (let (ls', u) = updateLines newVars ls (updatedKeys @ (if key \<in> set updatedKeys then [] else [key]))
             in (entryLine key (the (map_of newVars key)) # ls', u))
          else
            (let (ls', u) = updateLines newVars ls updatedKeys in (l # ls', u)))"

text \<open>
  \<open>writeEnvFile(envFilePath, newVars, existingEnv)\<close>: \<open>file\<close> is the file at the path
  before the call; the result is the content written there and the number returned.
\<close>

definition writeEnvFile :: "string option \<Rightarrow> env \<Rightarrow> env \<Rightarrow> string \<times> nat" where
  "writeEnvFile file newVars existingEnv =
     (let (lines0, updatedKeys) =
            (case file of
               None \<Rightarrow> ([], [])
             | Some content \<Rightarrow> updateLines newVars (split LF content) []);
          appendKeys = filter (\<lambda>(key, val). key \<notin> set updatedKeys) newVars;
          lines1 =
            (if length appendKeys > 0 then
               (if length lines0 > 0 \<and> last lines0 \<noteq> [] then lines0 @ [[]] else lines0)
               @ map (\<lambda>(key, val). entryLine key val) appendKeys
             else lines0);
          finalContent = stripTrailingNewlines (join LF lines1) @ [LF]
      in (finalContent, length updatedKeys + length appendKeys))"

section \<open>The specification's wording of the quoting rule\<close>

text \<open>
  The characters that the specification lists as the ones that make a value need
  quotes: whitespace, \<open>#\<close>, \<open>=\<close>, the backslash, the three quote characters,
  \<open>!\<close> and the line feed.
\<close>

definition specNeedsQuoting :: "string \<Rightarrow> bool" where
  "specNeedsQuoting s =
     (\<exists>c \<in> set s. isWhiteSpace c \<or> c = CHR ''#'' \<or> c = CHR ''='' \<or> c = BACKSLASH
        \<or> c = SQUOTE \<or> c = DQUOTE \<or> c = BACKTICK \<or> c = CHR ''!'' \<or> c = LF)"

section \<open>Reading the writer's result\<close>

text \<open>
  What the theorems about \<open>writeEnvFile\<close> speak of: the lines of the file before the
  call, the lines of the file written, what the loop does to one line, the keys of the
  lines of a file, the number of lines that carry a key, and the keys of \<open>newVars\<close>
  that the file does not have.
\<close>

definition originalLines :: "string option \<Rightarrow> string list" where
  "originalLines file = (case file of None \<Rightarrow> [] | Some content \<Rightarrow> split LF content)"

definition writtenLines :: "string option \<Rightarrow> env \<Rightarrow> env \<Rightarrow> string list" where
  "writtenLines file newVars existingEnv = split LF (fst (writeEnvFile file newVars existingEnv))"

definition patchLine :: "env \<Rightarrow> string \<Rightarrow> string" where
  "patchLine newVars l =
     (case lineKey l of
        None \<Rightarrow> l
      | Some k \<Rightarrow> (case map_of newVars k of None \<Rightarrow> l | Some v \<Rightarrow> entryLine k v))"

definition keysOf :: "string list \<Rightarrow> string list" where
  "keysOf ls = List.map_filter lineKey ls"

definition keyCount :: "string \<Rightarrow> string list \<Rightarrow> nat" where
  "keyCount k ls = length (filter (\<lambda>l. lineKey l = Some k) ls)"

definition absentEntries :: "string list \<Rightarrow> env \<Rightarrow> env" where
  "absentEntries ls newVars = filter (\<lambda>(k, v). k \<notin> set (keysOf ls)) newVars"

text \<open>
  A key as a line of the file can carry it: what is left of the first \<open>=\<close> of a line
  that is no comment, trimmed. The names of the scanner and the keys of a bulk paste
  are of this shape.
\<close>

definition isKey :: "string \<Rightarrow> bool" where
  "isKey k = (trim k = k \<and> CHR ''='' \<notin> set k \<and> LF \<notin> set k \<and> \<not> startsWith k ''#'')"

text \<open>
  The list of lines that \<open>writeEnvFile\<close> joins, in the words of the specification:
  every line of the file, patched where it carries a key of \<open>newVars\<close>; then, when
  there is a key to append, one empty line if the file has lines and the last one is
  not empty, and one line for every absent key, in the order of \<open>newVars\<close>.
\<close>

definition assembledLines :: "string option \<Rightarrow> env \<Rightarrow> string list" where
  "assembledLines file newVars =
     (let ls = originalLines file; ap = absentEntries ls newVars
      in map (patchLine newVars) ls
         @ (if ap = [] then []
            else (if ls \<noteq> [] \<and> last ls \<noteq> [] then [[]] else [])
                 @ map (\<lambda>(k, v). entryLine k v) ap))"

section \<open>Regular expressions as the scanner uses them\<close>

text \<open>
  The patterns of \<open>scanner.js\<close> are sequences of literals, character classes, a
  greedy \<open>*\<close> or \<open>+\<close> on a class, the word boundary \<open>\b\<close> and one capturing
  group. A pattern is the list of its items; the matcher is the backtracking matcher of
  ECMAScript for these items: a greedy repetition takes as many characters as it can
  and gives them back one at a time when the rest of the pattern fails.
\<close>

datatype item =
    Lit string
  | Cls "char \<Rightarrow> bool"
  | Star "char \<Rightarrow> bool"
  | Plus "char \<Rightarrow> bool"
  | WordB
  | GrpOpen
  | GrpClose

definition isUpper :: "char \<Rightarrow> bool" where
  "isUpper c = (c \<in> set ''ABCDEFGHIJKLMNOPQRSTUVWXYZ'')"

definition isLower :: "char \<Rightarrow> bool" where
  "isLower c = (c \<in> set ''abcdefghijklmnopqrstuvwxyz'')"

definition isDigit :: "char \<Rightarrow> bool" where
  "isDigit c = (c \<in> set ''0123456789'')"

text \<open>The class \<open>[A-Z0-9_]\<close>.\<close>

definition isNameChar :: "char \<Rightarrow> bool" where
  "isNameChar c = (isUpper c \<or> isDigit c \<or> c = CHR ''_'')"

text \<open>The class \<open>['"]\<close>.\<close>

definition isQuote :: "char \<Rightarrow> bool" where
  "isQuote c = (c = SQUOTE \<or> c = DQUOTE)"

text \<open>The word characters \<open>[A-Za-z0-9_]\<close> that \<open>\b\<close> looks at; a position at
  either end of the input has no character on that side.\<close>

definition isWordChar :: "char option \<Rightarrow> bool" where
  "isWordChar x =
     (case x of None \<Rightarrow> False
      | Some c \<Rightarrow> isUpper c \<or> isLower c \<or> isDigit c \<or> c = CHR ''_'')"

text \<open>The group under way: whether it is open, and the text it has taken.\<close>

type_synonym grp = "bool \<times> string"

definition push :: "grp \<Rightarrow> char \<Rightarrow> grp" where
  "push g c = (if fst g then (True, snd g @ [c]) else g)"

text \<open>
  \<open>rmatch items prev s g\<close> matches the items at one position: \<open>prev\<close> is the
  character before the position, \<open>s\<close> the input from the position on. The result is
  the text of the group, the character before the end of the match and the input after
  it; \<open>None\<close> when there is no match at this position.
\<close>

fun rmatch :: "item list \<Rightarrow> char option \<Rightarrow> string \<Rightarrow> grp \<Rightarrow> (string \<times> char option \<times> string) option" where
  "rmatch [] prev s g = Some (snd g, prev, s)"
| "rmatch (Lit [] # r) prev s g = rmatch r prev s g"
| "rmatch (Lit (x # xs) # r) prev [] g = None"
| "rmatch (Lit (x # xs) # r) prev (c # s) g =
     (if c = x then rmatch (Lit xs # r) (Some c) s (push g c) else None)"
| "rmatch (Cls P # r) prev [] g = None"
| "rmatch (Cls P # r) prev (c # s) g =
     (if P c then rmatch r (Some c) s (push g c) else None)"
| "rmatch (Plus P # r) prev [] g = None"
| "rmatch (Plus P # r) prev (c # s) g =
     (if P c then rmatch (Star P # r) (Some c) s (push g c) else None)"
| "rmatch (Star P # r) prev [] g = rmatch r prev [] g"
| "rmatch (Star P # r) prev (c # s) g =
     (if P c then
        (case rmatch (Star P # r) (Some c) s (push g c) of
           Some m \<Rightarrow> Some m
         | None \<Rightarrow> rmatch r prev (c # s) g)
      else rmatch r prev (c # s) g)"
| "rmatch (WordB # r) prev s g =
     (if isWordChar prev \<noteq> isWordChar (case s of [] \<Rightarrow> None | c # _ \<Rightarrow> Some c)
      then rmatch r prev s g else None)"
| "rmatch (GrpOpen # r) prev s g = rmatch r prev s (True, [])"
| "rmatch (GrpClose # r) prev s g = rmatch r prev s (False, snd g)"

text \<open>The leftmost match at or after a position: what one \<open>regex.exec\<close> finds from
  \<open>lastIndex\<close> on.\<close>

fun findMatch :: "item list \<Rightarrow> char option \<Rightarrow> string \<Rightarrow> (string \<times> char option \<times> string) option" where
  "findMatch p prev [] = rmatch p prev [] (False, [])"
| "findMatch p prev (c # s) =
     (case rmatch p prev (c # s) (False, []) of
        Some m \<Rightarrow> Some m
      | None \<Rightarrow> findMatch p (Some c) s)"

text \<open>
  The loop \<open>while ((match = regex.exec(content)) !== null)\<close> of a global pattern: every
  \<open>exec\<close> starts where the last match ended. The result is the list of \<open>match[1]\<close>
  in the order of the matches. A match that takes no character leaves \<open>lastIndex\<close>
  where it is, and the loop of the source never ends: that is the result \<open>None\<close>.
\<close>

function execLoop :: "item list \<Rightarrow> char option \<Rightarrow> string \<Rightarrow> string list option" where
  "execLoop p prev s =
     (case findMatch p prev s of
        None \<Rightarrow> Some []
      | Some (cap, prev', rest) \<Rightarrow>
          if length rest < length s
          then map_option (\<lambda>caps. cap # caps) (execLoop p prev' rest)
          else None)"
  by pat_completeness auto
termination
  by (relation "measure (\<lambda>(p, prev, s). length s)") auto

section \<open>scanner.js: patterns, deny-list and the two scans\<close>

text \<open>\<open>([A-Z][A-Z0-9_]+)\<close>\<close>

definition nameGroup :: "item list" where
  "nameGroup = [GrpOpen, Cls isUpper, Plus isNameChar, GrpClose]"

text \<open>\<open>\b(PREFIX[A-Z0-9_]+)\b\<close>\<close>

definition prefixed :: "string \<Rightarrow> item list" where
  "prefixed pre = [WordB, GrpOpen, Lit pre, Plus isNameChar, GrpClose, WordB]"

definition ENV_PATTERNS :: "item list list" where
  "ENV_PATTERNS =
    [ Lit ''process.env.'' # nameGroup,
      [Lit ''process.env['', Cls isQuote] @ nameGroup @ [Cls isQuote, Lit '']''],
      Lit ''import.meta.env.'' # nameGroup,
      prefixed ''NEXT_PUBLIC_'',
      prefixed ''REACT_APP_'',
      prefixed ''VITE_'',
      prefixed ''NUXT_'',
      prefixed ''EXPO_PUBLIC_'',
      [Lit ''os.environ.get('', Star isWhiteSpace, Cls isQuote] @ nameGroup @ [Cls isQuote],
      [Lit ''os.environ['', Cls isQuote] @ nameGroup @ [Cls isQuote, Lit '']''],
      [Lit ''os.getenv('', Star isWhiteSpace, Cls isQuote] @ nameGroup @ [Cls isQuote],
      [Lit ''ENV['', Cls isQuote] @ nameGroup @ [Cls isQuote, Lit '']''],
      [Lit ''ENV.fetch('', Star isWhiteSpace, Cls isQuote] @ nameGroup @ [Cls isQuote],
      [Lit ''env('', Star isWhiteSpace, Cls isQuote] @ nameGroup @ [Cls isQuote],
      [Lit ''System.getenv('', Star isWhiteSpace, Cls isQuote] @ nameGroup @ [Cls isQuote],
      [Lit ''os.Getenv('', Star isWhiteSpace, Cls isQuote] @ nameGroup @ [Cls isQuote],
      [Lit ''std::env::var('', Star isWhiteSpace, Cls isQuote] @ nameGroup @ [Cls isQuote],
      Lit ''${'' # nameGroup @ [Lit ''}''],
      Lit ''$'' # nameGroup @ [WordB] ]"

definition BLACKLIST :: "string list" where
  "BLACKLIST =
    [ ''NODE_ENV'', ''HOME'', ''PATH'', ''USER'', ''SHELL'', ''PWD'', ''LANG'', ''TERM'',
      ''HOSTNAME'', ''OLDPWD'', ''EDITOR'', ''TMPDIR'', ''TMP'', ''TEMP'', ''CI'', ''NODE'',
      ''NPM'', ''NVM'', ''SHLVL'', ''LOGNAME'', ''LC_ALL'', ''LC_CTYPE'', ''DISPLAY'',
      ''COLORTERM'', ''COLUMNS'', ''LINES'', ''SSH_AUTH_SOCK'', ''SSH_CLIENT'',
      ''SSH_CONNECTION'', ''SSH_TTY'', ''XDG_SESSION_ID'', ''XDG_RUNTIME_DIR'',
      ''XDG_DATA_DIRS'', ''XDG_CONFIG_DIRS'', ''DBUS_SESSION_BUS_ADDRESS'', ''MAIL'',
      ''MANPATH'', ''PAGER'', ''LESS'', ''_'' ]"

definition ENV_SOURCE_FILES :: "string list" where
  "ENV_SOURCE_FILES =
    [ ''.env'', ''.env.local'', ''.env.development'', ''.env.production'', ''.env.example'',
      ''.env.sample'', ''.env.template'', ''.env.local.example'' ]"

definition SELF_IGNORE_FILES :: "string list" where
  "SELF_IGNORE_FILES =
    [ ''bin/envsetter.js'', ''src/index.js'', ''src/scanner.js'', ''src/ui.js'',
      ''src/writer.js'', ''plan.md'' ]"

text \<open>
  The result of a scan, \<open>foundVars\<close>: a \<open>Map\<close> from a name to the \<open>Set\<close> of the files
  it was found in, both in insertion order. \<open>addOccurrence\<close> is
  \<open>if (!foundVars.has(name)) foundVars.set(name, new Set()); foundVars.get(name).add(file)\<close>.
\<close>

type_synonym scanResult = "(string \<times> string list) list"

definition setAdd :: "'a \<Rightarrow> 'a list \<Rightarrow> 'a list" where
  "setAdd x xs = (if x \<in> set xs then xs else xs @ [x])"

definition addOccurrence :: "string \<Rightarrow> string \<Rightarrow> scanResult \<Rightarrow> scanResult" where
  "addOccurrence name file foundVars =
     (let fv = (if has foundVars name then foundVars else foundVars @ [(name, [])])
      in map (\<lambda>(k, files). if k = name then (k, setAdd file files) else (k, files)) fv)"

text \<open>
  \<open>/^[A-Z][A-Z0-9_]+$/.test(key)\<close>: the pattern is anchored at both ends of the key
  (there is no \<open>m\<close> flag), so the key is one upper-case letter and then one or more
  characters of \<open>[A-Z0-9_]\<close>.
\<close>

definition isVarName :: "string \<Rightarrow> bool" where
  "isVarName key =
     (case key of
        [] \<Rightarrow> False
      | c # cs \<Rightarrow> isUpper c \<and> cs \<noteq> [] \<and> list_all isNameChar cs)"

text \<open>The body of the loop of \<open>extractEnvKeysFromContent\<close>; \<open>keys\<close> is a \<open>Set\<close>.\<close>

definition extractLine :: "string list \<Rightarrow> string \<Rightarrow> string list" where
  "extractLine keys line =
     (let trimmed = trim line in
      if trimmed = [] \<or> startsWith trimmed ''#'' then keys
      else case indexOf trimmed CHR ''='' of
        None \<Rightarrow> keys
      | Some eqIndex \<Rightarrow>
          (let key = trim (take eqIndex trimmed) in
           if key = [] then keys
           else if \<not> isVarName key then keys
           else if key \<in> set BLACKLIST then keys
           else setAdd key keys))"

definition extractEnvKeysFromContent :: "string \<Rightarrow> string list" where
  "extractEnvKeysFromContent content = foldl extractLine [] (split LF content)"

text \<open>
  \<open>scanEnvFilesOnly(cwd)\<close>, the shallow scan: \<open>dir\<close> lists the files of the
  directory that exist and can be read, each by its name with its content.
\<close>

definition scanEnvFilesOnly :: "(string \<times> string) list \<Rightarrow> scanResult" where
  "scanEnvFilesOnly dir =
     foldl (\<lambda>foundVars file.
              case map_of dir file of
                None \<Rightarrow> foundVars
              | Some content \<Rightarrow>
                  foldl (\<lambda>fv key. addOccurrence key file fv) foundVars
                    (extractEnvKeysFromContent content))
       [] ENV_SOURCE_FILES"

text \<open>The body of the loop over the matches of one pattern in \<open>scanCodebase\<close>.\<close>

definition recordMatch :: "string \<Rightarrow> scanResult \<Rightarrow> string \<Rightarrow> scanResult" where
  "recordMatch relPath foundVars varName =
     (if varName = [] then foundVars
      else if varName \<in> set BLACKLIST then foundVars
      else if length varName < 3 then foundVars
      else addOccurrence varName relPath foundVars)"

text \<open>A loop whose body may not return.\<close>

fun foldOpt :: "('b \<Rightarrow> 'a \<Rightarrow> 'b option) \<Rightarrow> 'b \<Rightarrow> 'a list \<Rightarrow> 'b option" where
  "foldOpt f b [] = Some b"
| "foldOpt f b (x # xs) = (case f b x of None \<Rightarrow> None | Some b' \<Rightarrow> foldOpt f b' xs)"

definition scanContent :: "string \<Rightarrow> string \<Rightarrow> scanResult \<Rightarrow> scanResult option" where
  "scanContent relPath content foundVars =
     foldOpt (\<lambda>fv regex.
                map_option (foldl (recordMatch relPath) fv) (execLoop regex None content))
       foundVars ENV_PATTERNS"

definition basename :: "string \<Rightarrow> string" where
  "basename path = rev (takeWhile (\<lambda>c. c \<noteq> CHR ''/'') (rev path))"

text \<open>
  \<open>scanCodebase(cwd)\<close>, the deep scan, from the loop over the files on: \<open>files\<close> are
  the files that the glob and the extra file names give, each with its path relative to
  \<open>cwd\<close> and its content, \<open>None\<close> when reading it throws; \<open>skipSelfFiles\<close> is the
  result of \<open>isSelfEnvsetterProject(cwd)\<close>.
\<close>

definition scanCodebase :: "bool \<Rightarrow> (string \<times> string option) list \<Rightarrow> scanResult option" where
  "scanCodebase skipSelfFiles files =
     foldOpt (\<lambda>foundVars (relPath, file).
                if skipSelfFiles \<and> relPath \<in> set SELF_IGNORE_FILES then Some foundVars
                else if basename relPath = ''.env'' \<or> basename relPath = ''.env.local''
                then Some foundVars
                else case file of
                       None \<Rightarrow> Some foundVars
                     | Some content \<Rightarrow> scanContent relPath content foundVars)
       [] files"

text \<open>
  The texts that a pattern can give as \<open>match[1]\<close>, whatever the input: what the items
  between the opening and the closing of the group can take.
\<close>

fun pushs :: "grp \<Rightarrow> string \<Rightarrow> grp" where
  "pushs g [] = g"
| "pushs g (c # cs) = pushs (push g c) cs"

fun captures :: "item list \<Rightarrow> grp \<Rightarrow> string set" where
  "captures [] g = {snd g}"
| "captures (Lit l # r) g = captures r (pushs g l)"
| "captures (Cls P # r) g = (\<Union>c \<in> {c. P c}. captures r (push g c))"
| "captures (Plus P # r) g = (\<Union>cs \<in> {cs. cs \<noteq> [] \<and> list_all P cs}. captures r (pushs g cs))"
| "captures (Star P # r) g = (\<Union>cs \<in> {cs. list_all P cs}. captures r (pushs g cs))"
| "captures (WordB # r) g = captures r g"
| "captures (GrpOpen # r) g = captures r (True, [])"
| "captures (GrpClose # r) g = captures r (False, snd g)"

text \<open>The least number of characters that a match of a pattern takes.\<close>

fun minLen :: "item list \<Rightarrow> nat" where
  "minLen [] = 0"
| "minLen (Lit l # r) = length l + minLen r"
| "minLen (Cls P # r) = 1 + minLen r"
| "minLen (Plus P # r) = 1 + minLen r"
| "minLen (Star P # r) = minLen r"
| "minLen (WordB # r) = minLen r"
| "minLen (GrpOpen # r) = minLen r"
| "minLen (GrpClose # r) = minLen r"


section \<open>Lines of a text: split, join and trailing line feeds\<close>

lemma split_not_Nil [simp]: "split sep s \<noteq> []"
  by (induction s) (auto split: list.splits)

lemma split_free: "sep \<notin> set s \<Longrightarrow> split sep s = [s]"
  by (induction s) auto

lemma split_append_sep: "sep \<notin> set x \<Longrightarrow> split sep (x @ sep # r) = x # split sep r"
  by (induction x) auto

lemma split_sep_free: "l \<in> set (split sep s) \<Longrightarrow> sep \<notin> set l"
  by (induction s arbitrary: l) (auto split: if_splits list.splits)

lemma join_Cons: "xs \<noteq> [] \<Longrightarrow> join sep (x # xs) = x @ sep # join sep xs"
  by (cases xs) auto

lemma join_hd_Cons: "join sep ((a # x) # xs) = a # join sep (x # xs)"
  by (cases xs) auto

lemma join_split: "join sep (split sep s) = s"
  by (induction s) (auto simp: join_Cons join_hd_Cons split: list.splits)

lemma join_append:
  "xs \<noteq> [] \<Longrightarrow> ys \<noteq> [] \<Longrightarrow> join sep (xs @ ys) = join sep xs @ sep # join sep ys"
  by (induction xs rule: join.induct) (auto simp: join_Cons)

lemma split_join:
  "xs \<noteq> [] \<Longrightarrow> \<forall>x\<in>set xs. sep \<notin> set x \<Longrightarrow> split sep (join sep xs) = xs"
  by (induction xs rule: join.induct) (auto simp: split_free split_append_sep)

lemma split_snoc_sep: "split sep (s @ [sep]) = split sep s @ [[]]"
  by (induction s) (auto split: list.splits)

lemma strip_while_single: "strip_while P [x] = (if P x then [] else [x])"
  using strip_while_snoc [of P "[]" x] by simp

lemma strip_join:
  "\<forall>x\<in>set xs. sep \<notin> set x \<Longrightarrow>
   strip_while (\<lambda>c. c = sep) (join sep xs) = join sep (strip_while (\<lambda>l. l = []) xs)"
proof (induction xs rule: rev_induct)
  case Nil
  then show ?case by simp
next
  case (snoc x xs)
  show ?case
  proof (cases "x = []")
    case True
    then show ?thesis using snoc by (cases "xs = []") (simp_all add: join_append strip_while_single)
  next
    case False
    with snoc.prems have "no_trailing (\<lambda>c. c = sep) x"
      by (auto simp: no_trailing_unfold)
    then have "no_trailing (\<lambda>c. c = sep) (join sep (xs @ [x]))"
      using False by (cases "xs = []") (simp_all add: join_append no_trailing_append)
    then show ?thesis using False by simp
  qed
qed

lemma written_lines:
  "split LF (stripTrailingNewlines s @ [LF]) =
     (if \<forall>l \<in> set (split LF s). l = [] then [[], []]
      else strip_while (\<lambda>l. l = []) (split LF s) @ [[]])"
proof -
  let ?xs = "split LF s"
  let ?ys = "strip_while (\<lambda>l. l = []) ?xs"
  have free: "\<forall>x\<in>set ?xs. LF \<notin> set x" by (simp add: split_sep_free)
  have "set ?ys \<subseteq> set ?xs"
    by (metis split_strip_while_append set_append Un_upper1)
  with free have free': "\<forall>x\<in>set ?ys. LF \<notin> set x" by blast
  have "stripTrailingNewlines s = strip_while (\<lambda>c. c = LF) (join LF ?xs)"
    by (simp add: stripTrailingNewlines_def join_split)
  also have "\<dots> = join LF ?ys" using free by (rule strip_join)
  finally have s: "stripTrailingNewlines s = join LF ?ys" .
  show ?thesis
  proof (cases "?ys = []")
    case True
    have "stripTrailingNewlines s = []" using s unfolding True by simp
    moreover from True have "\<forall>l \<in> set ?xs. l = []" by simp
    ultimately show ?thesis by simp
  next
    case False
    then have "split LF (join LF ?ys) = ?ys" using free' by (rule split_join)
    moreover from False have "(\<forall>l \<in> set ?xs. l = []) \<longleftrightarrow> False" by simp
    ultimately show ?thesis by (simp only: s split_snoc_sep if_False)
  qed
qed

lemma strip_while_nth:
  "i < length xs \<Longrightarrow> \<not> P (xs ! i) \<Longrightarrow> i < length (strip_while P xs) \<and> strip_while P xs ! i = xs ! i"
proof (induction xs rule: rev_induct)
  case Nil
  then show ?case by simp
next
  case (snoc x xs)
  show ?case
  proof (cases "P x")
    case True
    with snoc.prems have "i < length xs" by (cases "i = length xs") auto
    with snoc True show ?thesis by (simp add: nth_append)
  next
    case False
    then show ?thesis using snoc.prems by simp
  qed
qed

section \<open>Trimming, keys of lines and the loop of the writer\<close>

lemma dropWhile_no_leading: "no_leading P xs \<Longrightarrow> dropWhile P xs = xs"
  by (simp add: dropWhile_idem_iff)

lemma trim_id_iff: "trim s = s \<longleftrightarrow> no_leading isWhiteSpace s \<and> no_trailing isWhiteSpace s"
proof
  assume e: "trim s = s"
  have "no_trailing isWhiteSpace (trim s)" by (simp add: trim_def)
  moreover have "no_leading isWhiteSpace (trim s)"
    by (simp add: trim_def strip_while_dropWhile_commute)
  ultimately show "no_leading isWhiteSpace s \<and> no_trailing isWhiteSpace s" using e by simp
next
  assume "no_leading isWhiteSpace s \<and> no_trailing isWhiteSpace s"
  then show "trim s = s" by (simp add: trim_def dropWhile_no_leading)
qed

lemma trim_shape: "no_leading isWhiteSpace (trim s) \<and> no_trailing isWhiteSpace (trim s)"
proof
  show "no_leading isWhiteSpace (trim s)"
    by (simp add: trim_def strip_while_dropWhile_commute)
  show "no_trailing isWhiteSpace (trim s)"
    by (simp add: trim_def)
qed

lemma trim_idem [simp]: "trim (trim s) = trim s"
  using trim_shape by (simp add: trim_id_iff)

lemma set_strip_while: "set (strip_while P xs) \<subseteq> set xs"
  by (metis split_strip_while_append set_append Un_upper1)

lemma set_trim: "set (trim s) \<subseteq> set s"
  unfolding trim_def using set_strip_while set_dropWhileD by fastforce

lemma indexOf_Some:
  "indexOf s c = Some n \<Longrightarrow> c \<notin> set (take n s) \<and> n < length s \<and> s ! n = c"
  by (induction s arbitrary: n) (auto split: if_splits)

lemma indexOf_None: "indexOf s c = None \<longleftrightarrow> c \<notin> set s"
  by (induction s) auto

lemma indexOf_append: "c \<notin> set k \<Longrightarrow> indexOf (k @ c # r) c = Some (length k)"
  by (induction k) auto

lemma startsWith_hash: "startsWith s ''#'' \<longleftrightarrow> s \<noteq> [] \<and> hd s = CHR ''#''"
  by (cases s) (auto simp: startsWith_def)

lemma lineKey_Nil [simp]: "lineKey [] = None"
  by (simp add: lineKey_def trim_def)

lemma hd_strip_while: "xs \<noteq> [] \<Longrightarrow> \<not> P (hd xs) \<Longrightarrow> strip_while P xs \<noteq> [] \<and> hd (strip_while P xs) = hd xs"
  by (cases xs) auto

lemma lineKey_shape:
  assumes "lineKey l = Some k"
  shows "trim k = k" and "CHR ''='' \<notin> set k" and "\<not> startsWith k ''#''" and "set k \<subseteq> set l"
    and "l \<noteq> []"
proof -
  let ?t = "trim l"
  from assms obtain n where t: "?t \<noteq> []" "\<not> startsWith ?t ''#''"
    and n: "indexOf ?t CHR ''='' = Some n" and k: "k = trim (take n ?t)"
    by (auto simp: lineKey_def Let_def split: if_splits option.splits)
  show "trim k = k" by (simp add: k)
  have "set k \<subseteq> set (take n ?t)" unfolding k by (rule set_trim)
  moreover have "CHR ''='' \<notin> set (take n ?t)" using indexOf_Some[OF n] by simp
  ultimately show "CHR ''='' \<notin> set k" by blast
  have "set (take n ?t) \<subseteq> set ?t" by (rule set_take_subset)
  with \<open>set k \<subseteq> set (take n ?t)\<close> set_trim[of l] show "set k \<subseteq> set l" by blast
  show "l \<noteq> []" using t by (auto simp: trim_def)
  show "\<not> startsWith k ''#''"
  proof (cases "take n ?t = []")
    case True
    then have "k = trim []" by (simp only: k)
    then show ?thesis by (simp add: trim_def startsWith_def)
  next
    case False
    then have h: "hd (take n ?t) = hd ?t" by (cases ?t; cases n) auto
    have "\<not> isWhiteSpace (hd ?t)" using trim_shape[of l] t by (simp add: no_leading_def)
    with h False have nl: "no_leading isWhiteSpace (take n ?t)" by (simp add: no_leading_def)
    then have "k = strip_while isWhiteSpace (take n ?t)"
      by (simp add: k trim_def dropWhile_no_leading)
    with hd_strip_while[of "take n ?t" isWhiteSpace] False h \<open>\<not> isWhiteSpace (hd ?t)\<close>
    have "k \<noteq> [] \<and> hd k = hd ?t" by simp
    with t show ?thesis by (simp add: startsWith_hash)
  qed
qed

lemma lineKey_entry:
  assumes "trim k = k" and "CHR ''='' \<notin> set k" and "\<not> startsWith k ''#''"
    and "no_trailing isWhiteSpace fv"
  shows "lineKey (k @ ''='' @ fv) = Some k"
proof -
  let ?l = "k @ ''='' @ fv"
  from assms(1) have kl: "no_leading isWhiteSpace k" and kt: "no_trailing isWhiteSpace k"
    by (simp_all add: trim_id_iff)
  have "no_leading isWhiteSpace ?l" using kl by (simp add: isWhiteSpace_def)
  moreover have "no_trailing isWhiteSpace ?l"
    using assms(4) by (cases "fv = []") (simp_all add: no_trailing_append isWhiteSpace_def)
  ultimately have t: "trim ?l = ?l" by (simp add: trim_id_iff)
  have ne: "?l \<noteq> []" by simp
  have hs: "\<not> startsWith ?l ''#''"
    using assms(3) by (cases k) (auto simp: startsWith_hash)
  have ix: "indexOf ?l CHR ''='' = Some (length k)"
    using indexOf_append[OF assms(2), of fv] by simp
  show ?thesis
    unfolding lineKey_def t Let_def using ne hs ix assms(1) by simp
qed

lemma replaceAll_set: "x \<in> set (replaceAll c r s) \<Longrightarrow> x \<in> set r \<or> (x \<in> set s \<and> x \<noteq> c)"
  by (auto simp: replaceAll_def split: if_splits)

lemma formatValue_shape:
  "no_trailing isWhiteSpace (formatValue (Str v)) \<and> LF \<notin> set (formatValue (Str v))"
proof (cases "needsQuotes (Str v)")
  case True
  have "LF \<notin> set (escapeValue v)"
    unfolding escapeValue_def by (auto dest!: replaceAll_set)
  with True show ?thesis by (simp add: no_trailing_append isWhiteSpace_def)
next
  case False
  then have "v = [] \<or> (\<forall>c\<in>set v. \<not> quoteTrigger c)"
    by (auto simp: list_ex_iff split: if_splits)
  then have "\<forall>c\<in>set v. \<not> isWhiteSpace c" by (auto simp: quoteTrigger_def)
  then have "no_trailing isWhiteSpace v \<and> LF \<notin> set v"
    by (auto simp: no_trailing_unfold isWhiteSpace_def)
  with False show ?thesis by simp
qed

lemma lineKey_entryLine:
  "trim k = k \<Longrightarrow> CHR ''='' \<notin> set k \<Longrightarrow> \<not> startsWith k ''#'' \<Longrightarrow> lineKey (entryLine k v) = Some k"
  unfolding entryLine_def using formatValue_shape by (intro lineKey_entry) simp_all

lemma lineKey_patchLine [simp]: "lineKey (patchLine nv l) = lineKey l"
  by (auto simp: patchLine_def lineKey_shape lineKey_entryLine split: option.splits)

lemma patchLine_Nil_iff [simp]: "patchLine nv l = [] \<longleftrightarrow> l = []"
  by (auto simp: patchLine_def entryLine_def split: option.splits)

lemma patchLine_LF: "LF \<notin> set l \<Longrightarrow> LF \<notin> set (patchLine nv l)"
  using formatValue_shape lineKey_shape(4)
  by (fastforce simp: patchLine_def entryLine_def split: option.splits)

lemma entryLine_LF: "LF \<notin> set k \<Longrightarrow> LF \<notin> set (entryLine k v)"
  using formatValue_shape by (simp add: entryLine_def)

lemma updateLines_fst: "fst (updateLines nv ls u) = map (patchLine nv) ls"
  by (induction ls arbitrary: u)
    (auto simp: patchLine_def has_def case_prod_beta split: option.splits)

lemma updateLines_snd_set:
  "set (snd (updateLines nv ls u)) = set u \<union> {k \<in> set (keysOf ls). has nv k}"
  by (induction ls arbitrary: u)
    (auto simp: keysOf_def map_filter_simps case_prod_beta split: option.splits)

lemma updateLines_snd_distinct:
  "distinct u \<Longrightarrow> distinct (snd (updateLines nv ls u))"
  by (induction ls arbitrary: u) (auto simp: case_prod_beta split: option.splits)

lemma split_join_sep:
  "xs \<noteq> [] \<Longrightarrow> \<forall>x\<in>set xs. sep \<notin> set x \<Longrightarrow> split sep (join sep xs @ sep # t) = xs @ split sep t"
  by (induction xs rule: join.induct) (auto simp: split_append_sep)

lemma split_join_prefix:
  assumes "\<forall>x\<in>set xs. sep \<notin> set x" and "i < length xs"
  shows "i < length (split sep (join sep (xs @ ys))) \<and> split sep (join sep (xs @ ys)) ! i = xs ! i"
proof (cases "ys = []")
  case True
  with assms show ?thesis by (cases "xs = []") (simp_all add: split_join)
next
  case False
  from assms(2) have "xs \<noteq> []" by auto
  then have "split sep (join sep (xs @ ys)) = xs @ split sep (join sep ys)"
    using False assms(1) by (simp add: join_append split_join_sep)
  with assms(2) show ?thesis by (simp add: nth_append)
qed

lemma writeEnvFile_lines:
  "writeEnvFile file nv ex =
     (stripTrailingNewlines (join LF (assembledLines file nv)) @ [LF],
      length (remdups (filter (has nv) (keysOf (originalLines file))))
        + length (absentEntries (originalLines file) nv))"
proof -
  let ?ls = "originalLines file"
  let ?u = "snd (updateLines nv ?ls [])"
  have u: "set ?u = {k \<in> set (keysOf ?ls). has nv k}"
    by (simp add: updateLines_snd_set)
  have "distinct ?u" by (simp add: updateLines_snd_distinct)
  then have "length ?u = card (set ?u)" by (simp add: distinct_card)
  also have "\<dots> = length (remdups (filter (has nv) (keysOf ?ls)))"
    unfolding u by (simp add: length_remdups_card_conv)
  finally have lu: "length ?u = length (remdups (filter (has nv) (keysOf ?ls)))" .
  have ap: "filter (\<lambda>(key, val). key \<notin> set ?u) nv = absentEntries ?ls nv"
    unfolding absentEntries_def u
    by (rule filter_cong) (force simp: has_def map_of_eq_None_iff)+
  have last: "?ls \<noteq> [] \<Longrightarrow> (last (map (patchLine nv) ?ls) \<noteq> []) = (last ?ls \<noteq> [])"
    by (simp add: last_map)
  have upd: "(case file of None \<Rightarrow> ([], []) | Some content \<Rightarrow> updateLines nv (split LF content) [])
      = (map (patchLine nv) ?ls, ?u)"
    by (cases "file") (simp_all add: originalLines_def prod_eq_iff updateLines_fst)
  show ?thesis
    unfolding writeEnvFile_def assembledLines_def upd Let_def prod.case ap lu
    using last by auto
qed

lemma originalLines_LF: "l \<in> set (originalLines file) \<Longrightarrow> LF \<notin> set l"
  by (cases "file") (auto simp: originalLines_def dest: split_sep_free)

lemma written_eq:
  "writtenLines file nv ex =
     (if \<forall>l \<in> set (split LF (join LF (assembledLines file nv))). l = [] then [[], []]
      else strip_while (\<lambda>l. l = []) (split LF (join LF (assembledLines file nv))) @ [[]])"
  unfolding writtenLines_def writeEnvFile_lines fst_conv by (rule written_lines)

lemma written_nth:
  assumes "i < length (originalLines file)" and "originalLines file ! i \<noteq> []"
  shows "i < length (writtenLines file nv ex)
    \<and> writtenLines file nv ex ! i = patchLine nv (originalLines file ! i)"
proof -
  let ?ls = "originalLines file"
  let ?P = "map (patchLine nv) ?ls"
  obtain A where L: "assembledLines file nv = ?P @ A"
    by (simp add: assembledLines_def Let_def)
  let ?S = "split LF (join LF (?P @ A))"
  have free: "\<forall>x\<in>set ?P. LF \<notin> set x"
    using patchLine_LF originalLines_LF by fastforce
  have i: "i < length ?P" using assms(1) by simp
  from split_join_prefix[OF free i, of A]
  have S: "i < length ?S" "?S ! i = patchLine nv (?ls ! i)" using assms(1) by simp_all
  with assms(2) have ne: "?S ! i \<noteq> []" by simp
  with S(1) have "\<not> (\<forall>l \<in> set ?S. l = [])" using nth_mem by blast
  then have w: "writtenLines file nv ex = strip_while (\<lambda>l. l = []) ?S @ [[]]"
    unfolding written_eq L by (simp only: if_False)
  from strip_while_nth[of i ?S "\<lambda>l. l = []"] S(1) ne
  have "i < length (strip_while (\<lambda>l. l = []) ?S)"
    and "strip_while (\<lambda>l. l = []) ?S ! i = ?S ! i" by simp_all
  then show ?thesis unfolding w using S(2) by (simp add: nth_append)
qed

lemma keyCount_append [simp]: "keyCount k (xs @ ys) = keyCount k xs + keyCount k ys"
  by (simp add: keyCount_def)

lemma keyCount_Nil [simp]: "keyCount k [] = 0"
  by (simp add: keyCount_def)

lemma keyCount_empty_line [simp]: "keyCount k ([] # xs) = keyCount k xs"
  by (simp add: keyCount_def)

lemma keyCount_all_empty: "\<forall>l\<in>set xs. l = [] \<Longrightarrow> keyCount k xs = 0"
  by (induction xs) (simp_all)

lemma keyCount_strip: "keyCount k (strip_while (\<lambda>l. l = []) xs) = keyCount k xs"
proof -
  obtain ys zs where "strip_while (\<lambda>l. l = []) xs = ys" "\<forall>x\<in>set zs. x = []" "xs = ys @ zs"
    by (rule split_strip_while_append)
  then show ?thesis by (simp add: keyCount_all_empty)
qed

lemma keyCount_patch [simp]: "keyCount k (map (patchLine nv) ls) = keyCount k ls"
  by (simp add: keyCount_def filter_map comp_def)

lemma keyCount_entries:
  "\<forall>k'\<in>fst ` set ap. isKey k' \<Longrightarrow> distinct (map fst ap) \<Longrightarrow>
   keyCount k (map (\<lambda>(k, v). entryLine k v) ap) = (if k \<in> fst ` set ap then 1 else 0)"
proof (induction ap)
  case Nil
  then show ?case by simp
next
  case (Cons p ap)
  obtain k' v where p: "p = (k', v)" by (cases p)
  from Cons.prems have "isKey k'" by (simp add: p)
  then have lk: "lineKey (entryLine k' v) = Some k'"
    by (simp add: isKey_def lineKey_entryLine)
  have "keyCount k (map (\<lambda>(k, v). entryLine k v) (p # ap))
      = (if k' = k then 1 else 0) + keyCount k (map (\<lambda>(k, v). entryLine k v) ap)"
    by (simp add: p keyCount_def lk)
  with Cons show ?case by (auto simp: p)
qed

lemma assembled_LF:
  assumes "\<forall>k\<in>fst ` set nv. isKey k"
  shows "\<forall>l\<in>set (assembledLines file nv). LF \<notin> set l"
proof -
  have "\<forall>l\<in>set (map (patchLine nv) (originalLines file)). LF \<notin> set l"
    using patchLine_LF originalLines_LF by fastforce
  moreover have "\<forall>l\<in>set (map (\<lambda>(k, v). entryLine k v) (absentEntries (originalLines file) nv)). LF \<notin> set l"
  proof
    fix l assume "l \<in> set (map (\<lambda>(k, v). entryLine k v) (absentEntries (originalLines file) nv))"
    then obtain k v where "(k, v) \<in> set nv" and l: "l = entryLine k v"
      by (auto simp: absentEntries_def)
    then have "isKey k" using assms by force
    then show "LF \<notin> set l" unfolding l by (intro entryLine_LF) (simp add: isKey_def)
  qed
  ultimately show ?thesis by (auto simp: assembledLines_def Let_def)
qed

lemma split_join_lines:
  assumes "\<forall>l\<in>set xs. LF \<notin> set l"
  shows "split LF (join LF xs) = (if xs = [] then [[]] else xs)"
  using assms by (simp add: split_join)

lemma written_keyCount:
  assumes "\<forall>k\<in>fst ` set nv. isKey k"
  shows "keyCount k (writtenLines file nv ex) = keyCount k (assembledLines file nv)"
proof -
  let ?S = "split LF (join LF (assembledLines file nv))"
  have "keyCount k (writtenLines file nv ex) = keyCount k ?S"
    unfolding written_eq by (simp add: keyCount_strip keyCount_all_empty)
  also have "\<dots> = keyCount k (assembledLines file nv)"
    using split_join_lines[OF assembled_LF[OF assms], of "file"] by simp
  finally show ?thesis .
qed

lemma absentEntries_keys: "fst ` set (absentEntries ls nv) = fst ` set nv - set (keysOf ls)"
  by (force simp: absentEntries_def)

lemma keyCount_keysOf: "keyCount k ls = 0 \<longleftrightarrow> k \<notin> set (keysOf ls)"
  by (induction ls) (auto simp: keyCount_def keysOf_def map_filter_simps split: option.splits)

lemma keyCount_assembled:
  assumes "\<forall>k\<in>fst ` set nv. isKey k" and "distinct (map fst nv)"
  shows "keyCount k (assembledLines file nv)
    = keyCount k (originalLines file)
      + (if k \<in> fst ` set nv \<and> k \<notin> set (keysOf (originalLines file)) then 1 else 0)"
proof -
  let ?ls = "originalLines file"
  let ?ap = "absentEntries ?ls nv"
  have k: "\<forall>k'\<in>fst ` set ?ap. isKey k'" using assms(1) unfolding absentEntries_keys by blast
  have d: "distinct (map fst ?ap)"
    using assms(2) unfolding absentEntries_def by (rule distinct_map_filter)
  have "keyCount k (map (\<lambda>(k, v). entryLine k v) ?ap)
      = (if k \<in> fst ` set nv \<and> k \<notin> set (keysOf ?ls) then 1 else 0)"
    using keyCount_entries[OF k d, of k] by (simp add: absentEntries_keys)
  moreover have "?ap = [] \<Longrightarrow> \<not> (k \<in> fst ` set nv \<and> k \<notin> set (keysOf ?ls))"
    using absentEntries_keys[of ?ls nv] by auto
  ultimately show ?thesis
    by (auto simp: assembledLines_def Let_def)
qed

lemma written_append_case:
  assumes "\<forall>k\<in>fst ` set nv. isKey k" and "absentEntries (originalLines file) nv \<noteq> []"
  shows "writtenLines file nv ex
    = map (patchLine nv) (originalLines file)
      @ (if originalLines file \<noteq> [] \<and> last (originalLines file) \<noteq> [] then [[]] else [])
      @ map (\<lambda>(k, v). entryLine k v) (absentEntries (originalLines file) nv) @ [[]]"
proof -
  let ?ls = "originalLines file"
  let ?ap = "absentEntries ?ls nv"
  let ?L = "assembledLines file nv"
  have S: "split LF (join LF ?L) = (if ?L = [] then [[]] else ?L)"
    by (rule split_join_lines[OF assembled_LF[OF assms(1)]])
  from assms(2) obtain p ap' where ap: "?ap = ap' @ [p]" by (meson rev_exhaust)
  define B where "B = map (patchLine nv) ?ls @ (if ?ls \<noteq> [] \<and> last ?ls \<noteq> [] then [[]] else [])"
  define E where "E = map (\<lambda>(k, v). entryLine k v) ?ap"
  have L: "?L = B @ E" using assms(2) by (simp add: assembledLines_def Let_def B_def E_def)
  have le: "last E \<noteq> []" by (cases p) (simp add: E_def ap entryLine_def)
  have ne: "E \<noteq> []" using assms(2) by (simp add: E_def)
  have "last (B @ E) \<noteq> []" using le ne by simp
  then have "no_trailing (\<lambda>l. l = []) (B @ E)" by (simp only: no_trailing_unfold) simp
  then have st: "strip_while (\<lambda>l. l = []) (B @ E) = B @ E" by (rule strip_while_idem)
  have "last E \<in> set (B @ E)" using ne by simp
  with le have nall: "(\<forall>l\<in>set (B @ E). l = []) \<longleftrightarrow> False" by blast
  have "B @ E \<noteq> []" using ne by simp
  with S have S': "split LF (join LF (B @ E)) = B @ E" by (simp add: L)
  have "writtenLines file nv ex = (B @ E) @ [[]]"
    unfolding written_eq L S' by (simp only: nall st if_False)
  then show ?thesis by (simp add: B_def E_def)
qed

lemma written_no_append_case:
  assumes "absentEntries (originalLines file) nv = []"
  shows "\<exists>X. writtenLines file nv ex = X @ [[]] \<and> length X \<le> max 1 (length (originalLines file))"
proof -
  let ?ls = "originalLines file"
  let ?L = "assembledLines file nv"
  have L: "?L = map (patchLine nv) ?ls" using assms by (simp add: assembledLines_def Let_def)
  have "\<forall>l\<in>set ?L. LF \<notin> set l"
    unfolding L using patchLine_LF originalLines_LF by fastforce
  then have S: "split LF (join LF ?L) = (if ?L = [] then [[]] else ?L)"
    by (rule split_join_lines)
  have "length (strip_while (\<lambda>l. l = []) ?L) \<le> length ?L"
    by (metis split_strip_while_append length_append le_add1)
  then have "length (strip_while (\<lambda>l. l = []) ?L) \<le> length ?ls" by (simp add: L)
  then show ?thesis
    unfolding written_eq S
    by (auto simp: L intro: exI[of _ "[[]]"])
qed

section \<open>The writer\<close>

lemma patchLine_hit: "lineKey l = Some k \<Longrightarrow> map_of nv k = Some v \<Longrightarrow> patchLine nv l = entryLine k v"
  by (simp add: patchLine_def)

lemma patchLine_single_miss: "lineKey l \<noteq> Some B \<Longrightarrow> patchLine [(B, v)] l = l"
  by (auto simp: patchLine_def split: option.splits)

lemma returned_count:
  assumes "distinct (map fst nv)"
  shows "snd (writeEnvFile file nv ex) = length nv"
proof -
  let ?ls = "originalLines file"
  let ?A = "fst ` set nv"
  let ?B = "set (keysOf ?ls)"
  have d: "distinct (map fst (absentEntries ?ls nv))"
    using assms unfolding absentEntries_def by (rule distinct_map_filter)
  have "length (absentEntries ?ls nv) = card (fst ` set (absentEntries ?ls nv))"
    using distinct_card[OF d] by simp
  also have "\<dots> = card (?A - ?B)" by (simp add: absentEntries_keys)
  finally have a: "length (absentEntries ?ls nv) = card (?A - ?B)" .
  have "set (filter (has nv) (keysOf ?ls)) = ?A \<inter> ?B"
    by (auto simp: has_def map_of_eq_None_iff)
  then have u: "length (remdups (filter (has nv) (keysOf ?ls))) = card (?A \<inter> ?B)"
    by (simp add: length_remdups_card_conv)
  have "card (?A \<inter> ?B) + card (?A - ?B) = card ?A"
    using card_Int_Diff[of ?A ?B] by simp
  also have "\<dots> = length nv" using distinct_card[OF assms] by simp
  finally show ?thesis by (simp add: writeEnvFile_lines a u)
qed

lemmas eval_defs =
  originalLines_def writtenLines_def writeEnvFile_def lineKey_def entryLine_def trim_def
  startsWith_def isWhiteSpace_def has_def quoteTrigger_def escapeValue_def replaceAll_def
  stripTrailingNewlines_def keysOf_def map_filter_simps absentEntries_def keyCount_def
  isKey_def patchLine_def

text \<open>Every name that a scan finds is a key as a line of the file carries it.\<close>

lemma isNameChar_plain:
  "isNameChar c \<Longrightarrow> \<not> isWhiteSpace c \<and> c \<noteq> CHR ''='' \<and> c \<noteq> LF \<and> c \<noteq> CHR ''#''"
  by (auto simp: isNameChar_def isUpper_def isDigit_def isWhiteSpace_def)

lemma isVarName_isKey:
  assumes "isVarName k"
  shows "isKey k"
proof -
  from assms obtain c cs where k: "k = c # cs" and c: "isUpper c" and cs: "list_all isNameChar cs"
    by (cases k) (auto simp: isVarName_def)
  from c have "isNameChar c" by (simp add: isNameChar_def)
  with cs have all: "\<And>x. x \<in> set k \<Longrightarrow> isNameChar x" by (auto simp: k list_all_iff)
  have ne: "k \<noteq> []" by (simp add: k)
  then have "isNameChar (hd k)" "isNameChar (last k)" by (simp_all add: all)
  then have h: "\<not> isWhiteSpace (hd k)" "hd k \<noteq> CHR ''#''" and l: "\<not> isWhiteSpace (last k)"
    using isNameChar_plain by blast+
  from h(1) have "no_leading isWhiteSpace k" by (simp add: no_leading_def)
  moreover from l have "no_trailing isWhiteSpace k" by (simp add: no_trailing_unfold)
  ultimately have t: "trim k = k" by (simp add: trim_id_iff)
  from h(2) have s: "\<not> startsWith k ''#''" by (simp add: startsWith_hash)
  have e: "CHR ''='' \<notin> set k" using all isNameChar_plain by blast
  have f: "LF \<notin> set k" using all isNameChar_plain by blast
  from t s e f show ?thesis unfolding isKey_def by (intro conjI)
qed

text \<open>
  C1: for every call of \<open>writeEnvFile\<close> with a \<open>Map\<close> of new entries (its keys are
  distinct) whose keys are keys as a line of the file carries them, as every name of a
  scan is: every line of the
  file whose key is a key of the new entries is replaced where it stands by the line
  \<open>KEY=formatValue(value)\<close>; the file written ends with one line for every key of the
  new entries that no line of the file has, in the order of the new entries, and with
  nothing else new but at most one empty line before them; and no key is duplicated: a
  key of the new entries that the file has is on as many lines as before, a key that
  the file does not have is on one line.
\<close>

theorem writeEnvFile_no_duplicate_keys:
  assumes "distinct (map fst newVars)" and "\<forall>k \<in> fst ` set newVars. isKey k"
  shows "(\<forall>i < length (originalLines file). \<forall>k v.
            lineKey (originalLines file ! i) = Some k \<longrightarrow> map_of newVars k = Some v \<longrightarrow>
              i < length (writtenLines file newVars ex)
              \<and> writtenLines file newVars ex ! i = entryLine k v)
         \<and> drop (length (writtenLines file newVars ex)
                   - Suc (length (absentEntries (originalLines file) newVars)))
              (writtenLines file newVars ex)
            = map (\<lambda>(k, v). entryLine k v) (absentEntries (originalLines file) newVars) @ [[]]
         \<and> length (writtenLines file newVars ex)
            \<le> length (originalLines file) + length (absentEntries (originalLines file) newVars) + 2
         \<and> (\<forall>k \<in> fst ` set newVars.
              keyCount k (writtenLines file newVars ex)
              = (if k \<in> set (keysOf (originalLines file)) then keyCount k (originalLines file) else 1))"
proof (intro conjI allI impI ballI)
  fix i k v
  assume i: "i < length (originalLines file)" and k: "lineKey (originalLines file ! i) = Some k"
    and v: "map_of newVars k = Some v"
  from k have "originalLines file ! i \<noteq> []" by (rule lineKey_shape(5))
  from written_nth[OF i this, of newVars ex] patchLine_hit[OF k v]
  show "i < length (writtenLines file newVars ex)"
    and "writtenLines file newVars ex ! i = entryLine k v" by simp_all
next
  let ?E = "map (\<lambda>(k, v). entryLine k v) (absentEntries (originalLines file) newVars)"
  obtain X where X: "writtenLines file newVars ex = X @ ?E @ [[]]"
    and lX: "length X \<le> length (originalLines file) + 1"
  proof (cases "absentEntries (originalLines file) newVars = []")
    case True
    from written_no_append_case[OF True, of ex] True that show ?thesis by auto
  next
    case False
    from written_append_case[OF assms(2) False, of ex] that show ?thesis by simp
  qed
  show "drop (length (writtenLines file newVars ex)
                   - Suc (length (absentEntries (originalLines file) newVars)))
              (writtenLines file newVars ex) = ?E @ [[]]"
    unfolding X by simp
  show "length (writtenLines file newVars ex)
            \<le> length (originalLines file) + length (absentEntries (originalLines file) newVars) + 2"
    unfolding X using lX by simp
next
  fix k assume k: "k \<in> fst ` set newVars"
  have "keyCount k (writtenLines file newVars ex)
      = keyCount k (originalLines file)
        + (if k \<in> fst ` set newVars \<and> k \<notin> set (keysOf (originalLines file)) then 1 else 0)"
    by (simp only: written_keyCount[OF assms(2)] keyCount_assembled[OF assms(2) assms(1)])
  then show "keyCount k (writtenLines file newVars ex)
              = (if k \<in> set (keysOf (originalLines file)) then keyCount k (originalLines file) else 1)"
    using k keyCount_keysOf[of k "originalLines file"] by auto
qed

text \<open>The file \<open>A=1\<close>, \<open>B=2\<close> and the new entries \<open>B\<close> and \<open>D\<close>.\<close>

theorem writeEnvFile_no_duplicate_keys_witness:
  "distinct (map fst [(''B'', ''x''), (''D'', [])])
   \<and> isKey ''B'' \<and> isKey ''D''
   \<and> writtenLines (Some (''A=1'' @ [LF] @ ''B=2'')) [(''B'', ''x''), (''D'', [])] [] ! 1 = ''B=x''
   \<and> drop (length (writtenLines (Some (''A=1'' @ [LF] @ ''B=2'')) [(''B'', ''x''), (''D'', [])] []) - 2)
        (writtenLines (Some (''A=1'' @ [LF] @ ''B=2'')) [(''B'', ''x''), (''D'', [])] [])
       = [''D='', []]
   \<and> keyCount ''B'' (writtenLines (Some (''A=1'' @ [LF] @ ''B=2'')) [(''B'', ''x''), (''D'', [])] []) = 1
   \<and> keyCount ''D'' (writtenLines (Some (''A=1'' @ [LF] @ ''B=2'')) [(''B'', ''x''), (''D'', [])] []) = 1"
proof -
  let ?F = "Some (''A=1'' @ [LF] @ ''B=2'')"
  let ?nv = "[(''B'', ''x''), (''D'', [])]"
  let ?out = "writtenLines ?F ?nv []"
  have h1: "distinct (map fst ?nv)" by simp
  have kb: "isKey ''B''" and kd: "isKey ''D''" by (simp_all add: eval_defs)
  then have h2: "\<forall>k \<in> fst ` set ?nv. isKey k" by simp
  have o: "originalLines ?F = [''A=1'', ''B=2'']" by (simp add: originalLines_def)
  have a: "absentEntries (originalLines ?F) ?nv = [(''D'', [])]"
    unfolding o by (simp add: eval_defs)
  have ks: "''B'' \<in> set (keysOf (originalLines ?F))" "''D'' \<notin> set (keysOf (originalLines ?F))"
    unfolding o by (simp_all add: eval_defs)
  have cb: "keyCount ''B'' (originalLines ?F) = 1" unfolding o by (simp add: eval_defs)
  have k1: "lineKey (originalLines ?F ! 1) = Some ''B''" unfolding o by (simp add: eval_defs)
  have l1: "1 < length (originalLines ?F)" unfolding o by simp
  have m: "map_of ?nv ''B'' = Some ''x''" by simp
  have e: "entryLine ''B'' ''x'' = ''B=x''" "entryLine ''D'' [] = ''D=''" by (simp_all add: eval_defs)
  note t = writeEnvFile_no_duplicate_keys[OF h1 h2, of ?F "[]"]
  from t have inplace: "\<forall>i < length (originalLines ?F). \<forall>k v.
            lineKey (originalLines ?F ! i) = Some k \<longrightarrow> map_of ?nv k = Some v \<longrightarrow>
              i < length ?out \<and> ?out ! i = entryLine k v"
    by (rule conjunct1)
  from t have app: "drop (length ?out - Suc (length (absentEntries (originalLines ?F) ?nv))) ?out
            = map (\<lambda>(k, v). entryLine k v) (absentEntries (originalLines ?F) ?nv) @ [[]]"
    by (rule conjunct2[THEN conjunct1])
  from t have cnt: "\<forall>k \<in> fst ` set ?nv.
              keyCount k ?out
              = (if k \<in> set (keysOf (originalLines ?F)) then keyCount k (originalLines ?F) else 1)"
    by (rule conjunct2[THEN conjunct2, THEN conjunct2])
  from inplace[rule_format, OF l1 k1 m] have w1: "?out ! 1 = ''B=x''" unfolding e by (rule conjunct2)
  from app have w2: "drop (length ?out - 2) ?out = [''D='', []]"
    unfolding a by (simp add: e numeral_2_eq_2)
  have "''B'' \<in> fst ` set ?nv" by simp
  from cnt[rule_format, OF this] have "keyCount ''B'' ?out
      = (if ''B'' \<in> set (keysOf (originalLines ?F)) then keyCount ''B'' (originalLines ?F) else 1)" .
  then have c1: "keyCount ''B'' ?out = 1" using ks cb by simp
  have "''D'' \<in> fst ` set ?nv" by simp
  from cnt[rule_format, OF this] have "keyCount ''D'' ?out
      = (if ''D'' \<in> set (keysOf (originalLines ?F)) then keyCount ''D'' (originalLines ?F) else 1)" .
  then have c2: "keyCount ''D'' ?out = 1" using ks by simp
  from h1 kb kd w1 w2 c1 c2 show ?thesis by (intro conjI)
qed

text \<open>
  C2: when the new entries are the one key \<open>B\<close>, and the file has a line for \<open>B\<close>,
  then every line of the file that is not a line for \<open>B\<close> and is not empty (the lines
  for other keys, the comment lines) stands in the file written at the same position
  with the same content, every line for \<open>B\<close> is replaced at its position, and no line
  is added but the empty string after the final line feed.
\<close>

theorem writeEnvFile_frame:
  assumes "B \<in> set (keysOf (originalLines file))"
  shows "(\<forall>i < length (originalLines file).
            lineKey (originalLines file ! i) \<noteq> Some B \<longrightarrow> originalLines file ! i \<noteq> [] \<longrightarrow>
              i < length (writtenLines file [(B, v)] ex)
              \<and> writtenLines file [(B, v)] ex ! i = originalLines file ! i)
         \<and> (\<forall>i < length (originalLines file).
            lineKey (originalLines file ! i) = Some B \<longrightarrow>
              i < length (writtenLines file [(B, v)] ex)
              \<and> writtenLines file [(B, v)] ex ! i = entryLine B v)
         \<and> length (writtenLines file [(B, v)] ex) \<le> length (originalLines file) + 1"
proof (intro conjI allI impI)
  fix i
  assume i: "i < length (originalLines file)" and k: "lineKey (originalLines file ! i) \<noteq> Some B"
    and ne: "originalLines file ! i \<noteq> []"
  from written_nth[OF i ne, of "[(B, v)]" ex] patchLine_single_miss[OF k]
  show "i < length (writtenLines file [(B, v)] ex)"
    and "writtenLines file [(B, v)] ex ! i = originalLines file ! i" by simp_all
next
  fix i
  assume i: "i < length (originalLines file)" and k: "lineKey (originalLines file ! i) = Some B"
  from k have ne: "originalLines file ! i \<noteq> []" by (rule lineKey_shape(5))
  have "map_of [(B, v)] B = Some v" by simp
  from written_nth[OF i ne, of "[(B, v)]" ex] patchLine_hit[OF k this]
  show "i < length (writtenLines file [(B, v)] ex)"
    and "writtenLines file [(B, v)] ex ! i = entryLine B v" by simp_all
next
  have "absentEntries (originalLines file) [(B, v)] = []"
    using assms by (simp add: absentEntries_def)
  from written_no_append_case[OF this, of ex]
  obtain X where X: "writtenLines file [(B, v)] ex = X @ [[]]"
    "length X \<le> max 1 (length (originalLines file))" by blast
  have "originalLines file \<noteq> []"
    using assms by (auto simp: keysOf_def map_filter_simps)
  then have "max 1 (length (originalLines file)) = length (originalLines file)"
    by (cases "originalLines file") simp_all
  with X show "length (writtenLines file [(B, v)] ex) \<le> length (originalLines file) + 1"
    by simp
qed

text \<open>A file with a comment, the keys \<open>A\<close>, \<open>B\<close>, \<open>C\<close> and an empty line between.\<close>

theorem writeEnvFile_frame_witness:
  "''B'' \<in> set (keysOf (originalLines (Some (''# db'' @ [LF] @ ''A=1'' @ [LF] @ ''B=2'' @ [LF, LF] @ ''C=3'' @ [LF]))))
   \<and> writtenLines (Some (''# db'' @ [LF] @ ''A=1'' @ [LF] @ ''B=2'' @ [LF, LF] @ ''C=3'' @ [LF])) [(''B'', ''new'')] [] ! 0 = ''# db''
   \<and> writtenLines (Some (''# db'' @ [LF] @ ''A=1'' @ [LF] @ ''B=2'' @ [LF, LF] @ ''C=3'' @ [LF])) [(''B'', ''new'')] [] ! 1 = ''A=1''
   \<and> writtenLines (Some (''# db'' @ [LF] @ ''A=1'' @ [LF] @ ''B=2'' @ [LF, LF] @ ''C=3'' @ [LF])) [(''B'', ''new'')] [] ! 2 = ''B=new''
   \<and> writtenLines (Some (''# db'' @ [LF] @ ''A=1'' @ [LF] @ ''B=2'' @ [LF, LF] @ ''C=3'' @ [LF])) [(''B'', ''new'')] [] ! 4 = ''C=3''
   \<and> length (writtenLines (Some (''# db'' @ [LF] @ ''A=1'' @ [LF] @ ''B=2'' @ [LF, LF] @ ''C=3'' @ [LF])) [(''B'', ''new'')] []) \<le> 7"
proof -
  let ?F = "Some (''# db'' @ [LF] @ ''A=1'' @ [LF] @ ''B=2'' @ [LF, LF] @ ''C=3'' @ [LF])"
  let ?out = "writtenLines ?F [(''B'', ''new'')] []"
  have o: "originalLines ?F = [''# db'', ''A=1'', ''B=2'', [], ''C=3'', []]"
    by (simp add: originalLines_def)
  have h: "''B'' \<in> set (keysOf (originalLines ?F))" unfolding o by (simp add: eval_defs)
  have k0: "lineKey (originalLines ?F ! 0) \<noteq> Some ''B''" "originalLines ?F ! 0 \<noteq> []"
    and k1: "lineKey (originalLines ?F ! 1) \<noteq> Some ''B''" "originalLines ?F ! 1 \<noteq> []"
    and k4: "lineKey (originalLines ?F ! 4) \<noteq> Some ''B''" "originalLines ?F ! 4 \<noteq> []"
    and k2: "lineKey (originalLines ?F ! 2) = Some ''B''"
    unfolding o by (simp_all add: eval_defs)
  have l: "0 < length (originalLines ?F)" "1 < length (originalLines ?F)"
    "2 < length (originalLines ?F)" "4 < length (originalLines ?F)"
    unfolding o by simp_all
  have e: "entryLine ''B'' ''new'' = ''B=new''" by (simp add: eval_defs)
  note t = writeEnvFile_frame[OF h, of "''new''" "[]"]
  from t have keep: "\<forall>i < length (originalLines ?F).
            lineKey (originalLines ?F ! i) \<noteq> Some ''B'' \<longrightarrow> originalLines ?F ! i \<noteq> [] \<longrightarrow>
              i < length ?out \<and> ?out ! i = originalLines ?F ! i"
    by (rule conjunct1)
  from t have repl: "\<forall>i < length (originalLines ?F).
            lineKey (originalLines ?F ! i) = Some ''B'' \<longrightarrow>
              i < length ?out \<and> ?out ! i = entryLine ''B'' ''new''"
    by (rule conjunct2[THEN conjunct1])
  from t have len: "length ?out \<le> length (originalLines ?F) + 1"
    by (rule conjunct2[THEN conjunct2])
  from keep l(1) k0 have "?out ! 0 = originalLines ?F ! 0" by blast
  then have w0: "?out ! 0 = ''# db''" unfolding o by simp
  from keep l(2) k1 have "?out ! 1 = originalLines ?F ! 1" by blast
  then have w1: "?out ! 1 = ''A=1''" unfolding o by simp
  from keep l(4) k4 have "?out ! 4 = originalLines ?F ! 4" by blast
  then have w4: "?out ! 4 = ''C=3''" unfolding o by simp
  from repl l(3) k2 have w2: "?out ! 2 = ''B=new''" unfolding e by blast
  from len have len': "length ?out \<le> 7" unfolding o by simp
  from h w0 w1 w2 w4 len' show ?thesis by (intro conjI)
qed

text \<open>
  C6, as the specification states it, asks for a separator comment line before the first
  appended line. The file \<open>A=1\<close> with the new key \<open>B\<close> is written as the lines
  \<open>A=1\<close>, the empty line and \<open>B=2\<close>: there is no comment line.
\<close>

theorem writeEnvFile_separator_counterexample:
  "writtenLines (Some ''A=1'') [(''B'', ''2'')] [] = [''A=1'', [], ''B=2'', []]"
  by (simp add: eval_defs)

text \<open>
  C6, amended: \<open>writeEnvFile\<close> inserts no separator comment line. The content written
  is the lines of the file, patched, then the lines of the appended keys, joined and
  closed by one line feed; between the two, exactly one empty line is inserted when at
  least one key is appended, the file exists and its last line is not the empty string,
  and nothing is inserted otherwise. When a key is appended (the keys being keys as a
  line carries them), the lines written are exactly these; when no key is appended, no
  line is added to those of the file.
\<close>

theorem writeEnvFile_blank_separator:
  "fst (writeEnvFile file newVars ex)
     = stripTrailingNewlines (join LF
         (map (patchLine newVars) (originalLines file)
          @ (if absentEntries (originalLines file) newVars \<noteq> []
                \<and> originalLines file \<noteq> [] \<and> last (originalLines file) \<noteq> []
             then [[]] else [])
          @ map (\<lambda>(k, v). entryLine k v) (absentEntries (originalLines file) newVars))) @ [LF]
   \<and> ((\<forall>k \<in> fst ` set newVars. isKey k) \<longrightarrow>
        absentEntries (originalLines file) newVars \<noteq> [] \<longrightarrow>
        writtenLines file newVars ex
          = map (patchLine newVars) (originalLines file)
            @ (if originalLines file \<noteq> [] \<and> last (originalLines file) \<noteq> [] then [[]] else [])
            @ map (\<lambda>(k, v). entryLine k v) (absentEntries (originalLines file) newVars) @ [[]])
   \<and> (absentEntries (originalLines file) newVars = [] \<longrightarrow>
        length (writtenLines file newVars ex) \<le> max 1 (length (originalLines file)) + 1)"
proof (intro conjI impI)
  show "fst (writeEnvFile file newVars ex)
     = stripTrailingNewlines (join LF
         (map (patchLine newVars) (originalLines file)
          @ (if absentEntries (originalLines file) newVars \<noteq> []
                \<and> originalLines file \<noteq> [] \<and> last (originalLines file) \<noteq> []
             then [[]] else [])
          @ map (\<lambda>(k, v). entryLine k v) (absentEntries (originalLines file) newVars))) @ [LF]"
    by (simp add: writeEnvFile_lines assembledLines_def Let_def)
next
  assume "\<forall>k \<in> fst ` set newVars. isKey k" and "absentEntries (originalLines file) newVars \<noteq> []"
  then show "writtenLines file newVars ex
          = map (patchLine newVars) (originalLines file)
            @ (if originalLines file \<noteq> [] \<and> last (originalLines file) \<noteq> [] then [[]] else [])
            @ map (\<lambda>(k, v). entryLine k v) (absentEntries (originalLines file) newVars) @ [[]]"
    by (rule written_append_case)
next
  assume "absentEntries (originalLines file) newVars = []"
  from written_no_append_case[OF this, of ex]
  show "length (writtenLines file newVars ex) \<le> max 1 (length (originalLines file)) + 1"
    by auto
qed

theorem writeEnvFile_blank_separator_witness:
  "isKey ''B''
   \<and> absentEntries (originalLines (Some ''A=1'')) [(''B'', ''2'')] = [(''B'', ''2'')]
   \<and> writtenLines (Some ''A=1'') [(''B'', ''2'')] []
       = map (patchLine [(''B'', ''2'')]) [''A=1''] @ [[]] @ [''B=2''] @ [[]]
   \<and> absentEntries (originalLines (Some ''A=1'')) [(''A'', ''2'')] = []
   \<and> length (writtenLines (Some ''A=1'') [(''A'', ''2'')] []) \<le> 2"
proof -
  have k: "\<forall>k \<in> fst ` set [(''B'', ''2'')]. isKey k" by (simp add: eval_defs)
  have o: "originalLines (Some ''A=1'') = [''A=1'']" by (simp add: originalLines_def)
  have a: "absentEntries (originalLines (Some ''A=1'')) [(''B'', ''2'')] = [(''B'', ''2'')]"
    by (simp add: eval_defs)
  have a': "absentEntries (originalLines (Some ''A=1'')) [(''A'', ''2'')] = []"
    by (simp add: eval_defs)
  have ne: "absentEntries (originalLines (Some ''A=1'')) [(''B'', ''2'')] \<noteq> []"
    by (simp add: a)
  from writeEnvFile_blank_separator[of "Some ''A=1''" "[(''B'', ''2'')]" "[]"] k ne
  have "writtenLines (Some ''A=1'') [(''B'', ''2'')] []
          = map (patchLine [(''B'', ''2'')]) (originalLines (Some ''A=1''))
            @ (if originalLines (Some ''A=1'') \<noteq> [] \<and> last (originalLines (Some ''A=1'')) \<noteq> [] then [[]] else [])
            @ map (\<lambda>(k, v). entryLine k v) (absentEntries (originalLines (Some ''A=1'')) [(''B'', ''2'')]) @ [[]]"
    by blast
  then have w: "writtenLines (Some ''A=1'') [(''B'', ''2'')] []
       = map (patchLine [(''B'', ''2'')]) [''A=1''] @ [[]] @ [''B=2''] @ [[]]"
    using a unfolding o by (simp add: entryLine_def quoteTrigger_def isWhiteSpace_def)
  from writeEnvFile_blank_separator[of "Some ''A=1''" "[(''A'', ''2'')]" "[]"] a'
  have "length (writtenLines (Some ''A=1'') [(''A'', ''2'')] []) \<le> max 1 (length (originalLines (Some ''A=1''))) + 1"
    by blast
  then have l: "length (writtenLines (Some ''A=1'') [(''A'', ''2'')] []) \<le> 2"
    unfolding o by simp
  have "isKey ''B''" using k by simp
  with a w a' l show ?thesis by (intro conjI)
qed

text \<open>
  C10: when the key \<open>k\<close> is in the new entries with the value \<open>v\<close>, every line of the
  file with the key \<open>k\<close>, however many there are, stands in the file written at the
  same position as \<open>k=formatValue(v)\<close>; and the number returned is the number of the new
  entries, so that a key on several lines is counted once.
\<close>

theorem writeEnvFile_duplicate_lines:
  assumes "distinct (map fst newVars)" and "map_of newVars k = Some v"
  shows "(\<forall>i < length (originalLines file).
            lineKey (originalLines file ! i) = Some k \<longrightarrow>
              i < length (writtenLines file newVars ex)
              \<and> writtenLines file newVars ex ! i = entryLine k v)
         \<and> snd (writeEnvFile file newVars ex) = length newVars"
proof (intro conjI allI impI)
  fix i
  assume i: "i < length (originalLines file)" and k: "lineKey (originalLines file ! i) = Some k"
  from k have "originalLines file ! i \<noteq> []" by (rule lineKey_shape(5))
  from written_nth[OF i this, of newVars ex] patchLine_hit[OF k assms(2)]
  show "i < length (writtenLines file newVars ex)"
    and "writtenLines file newVars ex ! i = entryLine k v" by simp_all
next
  show "snd (writeEnvFile file newVars ex) = length newVars"
    using assms(1) by (rule returned_count)
qed

text \<open>A file with two lines for \<open>B\<close>.\<close>

theorem writeEnvFile_duplicate_lines_witness:
  "distinct (map fst [(''B'', ''x y'')])
   \<and> map_of [(''B'', ''x y'')] ''B'' = Some ''x y''
   \<and> keyCount ''B'' (originalLines (Some (''A=1'' @ [LF] @ ''B=2'' @ [LF] @ '' B = 3''))) = 2
   \<and> writtenLines (Some (''A=1'' @ [LF] @ ''B=2'' @ [LF] @ '' B = 3'')) [(''B'', ''x y'')] [] ! 1
       = ''B='' @ [DQUOTE] @ ''x y'' @ [DQUOTE]
   \<and> writtenLines (Some (''A=1'' @ [LF] @ ''B=2'' @ [LF] @ '' B = 3'')) [(''B'', ''x y'')] [] ! 2
       = ''B='' @ [DQUOTE] @ ''x y'' @ [DQUOTE]
   \<and> snd (writeEnvFile (Some (''A=1'' @ [LF] @ ''B=2'' @ [LF] @ '' B = 3'')) [(''B'', ''x y'')] []) = 1"
proof -
  let ?F = "Some (''A=1'' @ [LF] @ ''B=2'' @ [LF] @ '' B = 3'')"
  let ?nv = "[(''B'', ''x y'')]"
  have h1: "distinct (map fst ?nv)" by simp
  have h2: "map_of ?nv ''B'' = Some ''x y''" by simp
  have o: "originalLines ?F = [''A=1'', ''B=2'', '' B = 3'']" by (simp add: originalLines_def)
  have c: "keyCount ''B'' (originalLines ?F) = 2" unfolding o by (simp add: eval_defs)
  have k1: "lineKey (originalLines ?F ! 1) = Some ''B''" unfolding o by (simp add: eval_defs)
  have k2: "lineKey (originalLines ?F ! 2) = Some ''B''" unfolding o by (simp add: eval_defs)
  have e: "entryLine ''B'' ''x y'' = ''B='' @ [DQUOTE] @ ''x y'' @ [DQUOTE]"
    by (simp add: eval_defs)
  note t = writeEnvFile_duplicate_lines[OF h1 h2, of ?F "[]"]
  from t have all: "\<forall>i < length (originalLines ?F).
            lineKey (originalLines ?F ! i) = Some ''B'' \<longrightarrow>
              i < length (writtenLines ?F ?nv [])
              \<and> writtenLines ?F ?nv [] ! i = entryLine ''B'' ''x y''"
    by (rule conjunct1)
  from t have n: "snd (writeEnvFile ?F ?nv []) = length ?nv" by (rule conjunct2)
  have l1: "1 < length (originalLines ?F)" and l2: "2 < length (originalLines ?F)"
    unfolding o by simp_all
  from all l1 k1 have w1: "writtenLines ?F ?nv [] ! 1 = ''B='' @ [DQUOTE] @ ''x y'' @ [DQUOTE]"
    unfolding e by blast
  from all l2 k2 have w2: "writtenLines ?F ?nv [] ! 2 = ''B='' @ [DQUOTE] @ ''x y'' @ [DQUOTE]"
    unfolding e by blast
  from n have n': "snd (writeEnvFile ?F ?nv []) = 1" by simp
  from h1 h2 c w1 w2 n' show ?thesis by (intro conjI)
qed

section \<open>The matcher: what a pattern can capture\<close>

lemma pushs_closed: "\<not> fst g \<Longrightarrow> pushs g cs = g"
  by (induction cs) (simp_all add: push_def)

lemma pushs_open: "pushs (True, a) cs = (True, a @ cs)"
  by (induction cs arbitrary: a) (simp_all add: push_def)

lemma captures_StarI:
  "list_all P cs \<Longrightarrow> cap \<in> captures r (pushs g cs) \<Longrightarrow> cap \<in> captures (Star P # r) g"
  by auto

lemma captures_PlusI:
  "cs \<noteq> [] \<Longrightarrow> list_all P cs \<Longrightarrow> cap \<in> captures r (pushs g cs) \<Longrightarrow>
   cap \<in> captures (Plus P # r) g"
  by auto

lemma captures_StarE:
  "cap \<in> captures (Star P # r) g \<Longrightarrow> \<exists>cs. list_all P cs \<and> cap \<in> captures r (pushs g cs)"
  by auto

lemma rmatch_captures:
  "rmatch p prev s g = Some (cap, prev', rest) \<Longrightarrow> cap \<in> captures p g"
proof (induction p prev s g rule: rmatch.induct)
  case (10 P r prev c s g)
  show ?case
  proof (cases "P c \<and> rmatch (Star P # r) (Some c) s (push g c) \<noteq> None")
    case True
    with 10 have "cap \<in> captures (Star P # r) (push g c)" by auto
    from captures_StarE[OF this]
    obtain cs where "list_all P cs" "cap \<in> captures r (pushs (push g c) cs)" by blast
    then have "list_all P (c # cs)" "cap \<in> captures r (pushs g (c # cs))" using True by simp_all
    then show ?thesis by (rule captures_StarI)
  next
    case False
    with 10 have "cap \<in> captures r g" by (auto split: if_splits option.splits)
    then have "cap \<in> captures r (pushs g [])" by simp
    moreover have "list_all P []" by simp
    ultimately show ?thesis by (rule captures_StarI[rotated])
  qed
next
  case (8 P r prev c s g)
  then have Pc: "P c" and "cap \<in> captures (Star P # r) (push g c)" by (auto split: if_splits)
  from captures_StarE[OF this(2)]
  obtain cs where "list_all P cs" "cap \<in> captures r (pushs (push g c) cs)" by blast
  then have "c # cs \<noteq> []" "list_all P (c # cs)" "cap \<in> captures r (pushs g (c # cs))"
    using Pc by simp_all
  then show ?case by (rule captures_PlusI)
next
  case (9 P r prev g)
  then have "cap \<in> captures r (pushs g [])" by simp
  moreover have "list_all P []" by simp
  ultimately show ?case by (rule captures_StarI[rotated])
qed (auto split: if_splits)

lemma rmatch_minLen:
  "rmatch p prev s g = Some (cap, prev', rest) \<Longrightarrow> length rest + minLen p \<le> length s"
  by (induction p prev s g rule: rmatch.induct) (fastforce split: if_splits option.splits)+

lemma findMatch_sound:
  "findMatch p prev s = Some (cap, prev', rest) \<Longrightarrow>
   cap \<in> captures p (False, []) \<and> length rest + minLen p \<le> length s"
proof (induction s arbitrary: prev)
  case Nil
  then show ?case using rmatch_captures rmatch_minLen by fastforce
next
  case (Cons c s)
  show ?case
  proof (cases "rmatch p prev (c # s) (False, [])")
    case None
    with Cons.prems have "findMatch p (Some c) s = Some (cap, prev', rest)" by simp
    from Cons.IH[OF this] show ?thesis by simp
  next
    case (Some m)
    with Cons.prems have "rmatch p prev (c # s) (False, []) = Some (cap, prev', rest)" by simp
    then show ?thesis using rmatch_captures rmatch_minLen by blast
  qed
qed

lemma execLoop_total:
  assumes "0 < minLen p"
  shows "\<exists>caps. execLoop p prev s = Some caps \<and> set caps \<subseteq> captures p (False, [])"
proof (induction s arbitrary: prev rule: length_induct)
  case (1 s)
  show ?case
  proof (cases "findMatch p prev s")
    case None
    then show ?thesis by simp
  next
    case (Some m)
    obtain cap prev' rest where m: "m = (cap, prev', rest)" by (cases m)
    from findMatch_sound[OF Some[unfolded m]] assms
    have c: "cap \<in> captures p (False, [])" and l: "length rest < length s" by simp_all
    from 1 l obtain caps where "execLoop p prev' rest = Some caps"
      "set caps \<subseteq> captures p (False, [])" by blast
    with Some m c l show ?thesis by simp
  qed
qed

lemma isVarName_Cons: "isVarName (c # cs) \<longleftrightarrow> isUpper c \<and> cs \<noteq> [] \<and> list_all isNameChar cs"
  by (simp add: isVarName_def)

lemma captures_nameGroup:
  "\<not> fst g \<Longrightarrow> captures (nameGroup @ r) g
     = (\<Union>n \<in> {n. isVarName n}. captures r (False, n))"
proof -
  have "(\<Union>c\<in>{c. isUpper c}. \<Union>cs\<in>{cs. cs \<noteq> [] \<and> list_all isNameChar cs}. captures r (False, c # cs))
      = (\<Union>n \<in> {n. isVarName n}. captures r (False, n))"
    (is "?L = ?R")
  proof
    show "?L \<subseteq> ?R" by (auto simp: isVarName_Cons) (metis isVarName_Cons)
    show "?R \<subseteq> ?L"
    proof
      fix x assume "x \<in> ?R"
      then obtain n where n: "isVarName n" "x \<in> captures r (False, n)" by auto
      then obtain c cs where "n = c # cs" by (cases n) (auto simp: isVarName_def)
      with n show "x \<in> ?L" by (auto simp: isVarName_Cons)
    qed
  qed
  then show ?thesis by (simp add: nameGroup_def push_def pushs_open)
qed

lemma captures_closed_tail:
  "captures [Cls P] (False, n) \<subseteq> {n}" "captures [Cls P, Lit l] (False, n) \<subseteq> {n}"
  "captures [Lit l] (False, n) \<subseteq> {n}" "captures [WordB] (False, n) = {n}"
  "captures [] (False, n) = {n}"
  by (auto simp: push_def pushs_closed)

lemma captures_lead_Lit:
  "captures (Lit l # r) (False, []) = captures r (False, [])"
  by (simp add: pushs_closed)

lemma captures_lead_Cls:
  "captures (Cls P # r) (False, []) \<subseteq> captures r (False, [])"
  by (auto simp: push_def)

lemma captures_lead_Star:
  "captures (Star P # r) (False, []) \<subseteq> captures r (False, [])"
  by (auto simp: pushs_closed)

lemma captures_prefixed:
  assumes "isVarName (pre @ ''A'')"
  shows "captures (prefixed pre) (False, []) \<subseteq> {n. isVarName n}"
proof -
  from assms obtain c cs where pre: "pre @ ''A'' = c # cs" and c: "isUpper c"
    and cs: "list_all isNameChar cs" by (cases "pre @ ''A''") (auto simp: isVarName_def)
  have "isVarName (pre @ ns)" if "ns \<noteq> []" "list_all isNameChar ns" for ns
  proof (cases pre)
    case Nil
    from Nil assms show ?thesis by (simp add: isVarName_def)
  next
    case (Cons d ds)
    with pre c cs have "isUpper d" "list_all isNameChar ds" by auto
    with Cons that show ?thesis by (simp add: isVarName_Cons)
  qed
  then show ?thesis
    by (auto simp: prefixed_def pushs_open push_def)
qed

lemma captures_nameGroup_tail:
  assumes "\<And>n. captures tail (False, n) \<subseteq> {n}"
  shows "captures (nameGroup @ tail) (False, []) \<subseteq> {n. isVarName n}"
  using assms by (subst captures_nameGroup) auto

lemma shape_member: "captures (Lit l # nameGroup) (False, []) \<subseteq> {n. isVarName n}"
  using captures_nameGroup_tail[of "[]"] by (simp add: pushs_closed)

lemma shape_bracket:
  "captures (Lit l # Cls Q # nameGroup @ [Cls Q', Lit l']) (False, []) \<subseteq> {n. isVarName n}"
proof -
  have "captures (Lit l # Cls Q # nameGroup @ [Cls Q', Lit l']) (False, [])
      \<subseteq> captures (nameGroup @ [Cls Q', Lit l']) (False, [])"
    by (auto simp: pushs_closed push_def)
  also have "\<dots> \<subseteq> {n. isVarName n}"
    by (rule captures_nameGroup_tail) (rule captures_closed_tail)
  finally show ?thesis .
qed

lemma shape_call:
  "captures (Lit l # Star W # Cls Q # nameGroup @ [Cls Q']) (False, []) \<subseteq> {n. isVarName n}"
proof -
  have "captures (Lit l # Star W # Cls Q # nameGroup @ [Cls Q']) (False, [])
      \<subseteq> captures (nameGroup @ [Cls Q']) (False, [])"
    by (auto simp: pushs_closed push_def)
  also have "\<dots> \<subseteq> {n. isVarName n}"
    by (rule captures_nameGroup_tail) (rule captures_closed_tail)
  finally show ?thesis .
qed

lemma shape_braces:
  "captures (Lit l # nameGroup @ [Lit l']) (False, []) \<subseteq> {n. isVarName n}"
proof -
  have "captures (Lit l # nameGroup @ [Lit l']) (False, []) = captures (nameGroup @ [Lit l']) (False, [])"
    by (simp add: pushs_closed)
  also have "\<dots> \<subseteq> {n. isVarName n}"
    by (rule captures_nameGroup_tail) (rule captures_closed_tail)
  finally show ?thesis .
qed

lemma shape_dollar:
  "captures (Lit l # nameGroup @ [WordB]) (False, []) \<subseteq> {n. isVarName n}"
proof -
  have "captures (Lit l # nameGroup @ [WordB]) (False, []) = captures (nameGroup @ [WordB]) (False, [])"
    by (simp add: pushs_closed)
  also have "\<dots> \<subseteq> {n. isVarName n}"
    by (rule captures_nameGroup_tail) simp
  finally show ?thesis .
qed

lemma ENV_PATTERNS_captures:
  assumes "p \<in> set ENV_PATTERNS"
  shows "captures p (False, []) \<subseteq> {n. isVarName n}"
proof -
  have "isVarName (''NEXT_PUBLIC_'' @ ''A'')" "isVarName (''REACT_APP_'' @ ''A'')"
    "isVarName (''VITE_'' @ ''A'')" "isVarName (''NUXT_'' @ ''A'')"
    "isVarName (''EXPO_PUBLIC_'' @ ''A'')"
    by (simp_all add: isVarName_def isUpper_def isNameChar_def)
  note pf = this[THEN captures_prefixed]
  from assms show ?thesis
    unfolding ENV_PATTERNS_def
    by (simp only: set_simps insert_iff empty_iff append.simps)
      (elim disjE; simp only: shape_member shape_bracket shape_call shape_braces shape_dollar pf)
qed

lemma ENV_PATTERNS_minLen: "p \<in> set ENV_PATTERNS \<Longrightarrow> 0 < minLen p"
  by (auto simp: ENV_PATTERNS_def nameGroup_def prefixed_def)

section \<open>The two scans\<close>

lemma addOccurrence_keys:
  "fst ` set (addOccurrence n f fv) = insert n (fst ` set fv)"
proof -
  have m: "fst ` set (map (\<lambda>(k, files). if k = n then (k, setAdd f files) else (k, files)) xs)
      = fst ` set xs" for xs :: scanResult
    by (induction xs) auto
  show ?thesis
    unfolding addOccurrence_def Let_def m
    by (auto simp: has_def map_of_eq_None_iff)
qed

lemma recordMatch_inv:
  assumes "isVarName n"
    and "\<forall>k \<in> fst ` set fv. isVarName k \<and> 3 \<le> length k \<and> k \<notin> set BLACKLIST"
  shows "\<forall>k \<in> fst ` set (recordMatch f fv n). isVarName k \<and> 3 \<le> length k \<and> k \<notin> set BLACKLIST"
proof (cases "n = [] \<or> n \<in> set BLACKLIST \<or> length n < 3")
  case True
  then have "recordMatch f fv n = fv" by (auto simp: recordMatch_def)
  with assms(2) show ?thesis by simp
next
  case False
  then have "recordMatch f fv n = addOccurrence n f fv" by (auto simp: recordMatch_def)
  then have k: "fst ` set (recordMatch f fv n) = insert n (fst ` set fv)"
    by (simp only: addOccurrence_keys)
  have "3 \<le> length n" "n \<notin> set BLACKLIST" using False by auto
  with assms show ?thesis unfolding k by blast
qed

lemma foldl_recordMatch_inv:
  assumes "\<forall>n \<in> set ns. isVarName n"
    and "\<forall>k \<in> fst ` set fv. isVarName k \<and> 3 \<le> length k \<and> k \<notin> set BLACKLIST"
  shows "\<forall>k \<in> fst ` set (foldl (recordMatch f) fv ns).
           isVarName k \<and> 3 \<le> length k \<and> k \<notin> set BLACKLIST"
  using assms
proof (induction ns arbitrary: fv)
  case Nil
  then show ?case by simp
next
  case (Cons n ns)
  from Cons.prems have "isVarName n" by simp
  from recordMatch_inv[OF this Cons.prems(2), of f] Cons.prems(1)
  show ?case by (simp only: foldl_Cons) (intro Cons.IH, simp_all)
qed

lemma foldOpt_inv:
  assumes "\<And>b x. x \<in> set xs \<Longrightarrow> I b \<Longrightarrow> \<exists>b'. f b x = Some b' \<and> I b'" and "I b"
  shows "\<exists>b'. foldOpt f b xs = Some b' \<and> I b'"
  using assms
proof (induction xs arbitrary: b)
  case Nil
  then show ?case by simp
next
  case (Cons x xs)
  from Cons.prems(1)[of x b] Cons.prems(2) obtain b' where b': "f b x = Some b'" "I b'" by auto
  from Cons.IH[of b'] Cons.prems(1) b'(2) obtain b'' where "foldOpt f b' xs = Some b''" "I b''"
    by auto
  with b' show ?case by simp
qed

lemma scanContent_inv:
  assumes "\<forall>k \<in> fst ` set fv. isVarName k \<and> 3 \<le> length k \<and> k \<notin> set BLACKLIST"
  shows "\<exists>fv'. scanContent relPath content fv = Some fv'
    \<and> (\<forall>k \<in> fst ` set fv'. isVarName k \<and> 3 \<le> length k \<and> k \<notin> set BLACKLIST)"
  unfolding scanContent_def
proof (rule foldOpt_inv[where I = "\<lambda>fv. \<forall>k \<in> fst ` set fv. isVarName k \<and> 3 \<le> length k \<and> k \<notin> set BLACKLIST"])
  fix b :: scanResult and regex
  assume r: "regex \<in> set ENV_PATTERNS"
    and b: "\<forall>k \<in> fst ` set b. isVarName k \<and> 3 \<le> length k \<and> k \<notin> set BLACKLIST"
  from execLoop_total[OF ENV_PATTERNS_minLen[OF r], of None content]
  obtain caps where c: "execLoop regex None content = Some caps"
    "set caps \<subseteq> captures regex (False, [])" by blast
  with ENV_PATTERNS_captures[OF r] have "\<forall>n \<in> set caps. isVarName n" by blast
  from foldl_recordMatch_inv[OF this b, of relPath] c(1)
  show "\<exists>b'. map_option (foldl (recordMatch relPath) b) (execLoop regex None content) = Some b'
      \<and> (\<forall>k \<in> fst ` set b'. isVarName k \<and> 3 \<le> length k \<and> k \<notin> set BLACKLIST)"
    by simp
qed (rule assms)

lemma scanCodebase_inv:
  "\<exists>fv. scanCodebase skipSelfFiles files = Some fv
    \<and> (\<forall>k \<in> fst ` set fv. isVarName k \<and> 3 \<le> length k \<and> k \<notin> set BLACKLIST)"
  unfolding scanCodebase_def
proof (rule foldOpt_inv[where I = "\<lambda>fv. \<forall>k \<in> fst ` set fv. isVarName k \<and> 3 \<le> length k \<and> k \<notin> set BLACKLIST"])
  fix b :: scanResult and x :: "string \<times> string option"
  assume b: "\<forall>k \<in> fst ` set b. isVarName k \<and> 3 \<le> length k \<and> k \<notin> set BLACKLIST"
  obtain relPath file' where x: "x = (relPath, file')" by (cases x)
  show "\<exists>b'. (case x of (relPath, file) \<Rightarrow>
                if skipSelfFiles \<and> relPath \<in> set SELF_IGNORE_FILES then Some b
                else if basename relPath = ''.env'' \<or> basename relPath = ''.env.local''
                then Some b
                else case file of
                       None \<Rightarrow> Some b
                     | Some content \<Rightarrow> scanContent relPath content b) = Some b'
      \<and> (\<forall>k \<in> fst ` set b'. isVarName k \<and> 3 \<le> length k \<and> k \<notin> set BLACKLIST)"
    using b scanContent_inv[OF b] by (auto simp: x split: option.splits)
qed simp

lemma isVarName_length: "isVarName n \<Longrightarrow> 2 \<le> length n"
  by (cases n; cases "tl n") (auto simp: isVarName_def)

lemma extractLine_inv:
  assumes "\<forall>k \<in> set keys. isVarName k \<and> k \<notin> set BLACKLIST"
  shows "\<forall>k \<in> set (extractLine keys line). isVarName k \<and> k \<notin> set BLACKLIST"
  using assms by (auto simp: extractLine_def Let_def setAdd_def split: option.splits)

lemma extractEnvKeys_inv:
  "\<forall>k \<in> set (extractEnvKeysFromContent content). isVarName k \<and> k \<notin> set BLACKLIST"
proof -
  have "\<forall>k \<in> set (foldl extractLine keys ls). isVarName k \<and> k \<notin> set BLACKLIST"
    if "\<forall>k \<in> set keys. isVarName k \<and> k \<notin> set BLACKLIST" for keys ls
    using that
  proof (induction ls arbitrary: keys)
    case Nil
    then show ?case by simp
  next
    case (Cons l ls)
    from extractLine_inv[OF Cons.prems, of l]
    have "\<forall>k \<in> set (foldl extractLine (extractLine keys l) ls). isVarName k \<and> k \<notin> set BLACKLIST"
      by (rule Cons.IH)
    then show ?case by (simp only: foldl_Cons)
  qed
  from this[of "[]" "split LF content"] show ?thesis
    by (simp add: extractEnvKeysFromContent_def)
qed

lemma foldl_addOccurrence_keys:
  "fst ` set (foldl (\<lambda>fv key. addOccurrence key file fv) fv keys) = fst ` set fv \<union> set keys"
  by (induction keys arbitrary: fv) (auto simp: addOccurrence_keys)

lemma scanEnvFilesOnly_inv:
  "\<forall>k \<in> fst ` set (scanEnvFilesOnly dir). isVarName k \<and> k \<notin> set BLACKLIST"
proof -
  let ?step = "\<lambda>foundVars file.
              case map_of dir file of
                None \<Rightarrow> foundVars
              | Some content \<Rightarrow>
                  foldl (\<lambda>fv key. addOccurrence key file fv) foundVars
                    (extractEnvKeysFromContent content)"
  have "\<forall>k \<in> fst ` set (foldl ?step fv fs). isVarName k \<and> k \<notin> set BLACKLIST"
    if "\<forall>k \<in> fst ` set fv. isVarName k \<and> k \<notin> set BLACKLIST" for fv fs
    using that
  proof (induction fs arbitrary: fv)
    case Nil
    then show ?case by simp
  next
    case (Cons f fs)
    have "\<forall>k \<in> fst ` set (?step fv f). isVarName k \<and> k \<notin> set BLACKLIST"
    proof (cases "map_of dir f")
      case None
      with Cons.prems show ?thesis by simp
    next
      case (Some content)
      have "fst ` set (?step fv f) = fst ` set fv \<union> set (extractEnvKeysFromContent content)"
        by (simp only: Some option.case foldl_addOccurrence_keys)
      with Cons.prems extractEnvKeys_inv[of content] show ?thesis by blast
    qed
    from Cons.IH[OF this] show ?case by simp
  qed
  from this[of "[]" ENV_SOURCE_FILES] show ?thesis unfolding scanEnvFilesOnly_def by simp
qed

text \<open>
  C8, as the specification states it, fails in shallow mode: a directory whose \<open>.env\<close>
  declares the key \<open>AB\<close> gives a result with the name \<open>AB\<close>, of length two. The
  shallow scan tests the shape and the deny-list and has no test of the length.
\<close>

theorem shallow_scan_short_name_counterexample:
  "scanEnvFilesOnly [(''.env'', ''AB=1'')] = [(''AB'', [''.env''])] \<and> length ''AB'' < 3"
  by (simp add: scanEnvFilesOnly_def ENV_SOURCE_FILES_def extractEnvKeysFromContent_def
      extractLine_def trim_def startsWith_def isWhiteSpace_def isVarName_def isUpper_def
      isNameChar_def BLACKLIST_def setAdd_def addOccurrence_def has_def)

text \<open>
  C8, amended: the deep scan returns for every list of files, and every name in its
  result has the shape \<open>[A-Z][A-Z0-9_]+\<close>, has length at least three and is not in
  the deny-list; every name in the result of the shallow scan has the shape
  \<open>[A-Z][A-Z0-9_]+\<close>, hence length at least two, and is not in the deny-list.
\<close>

theorem scan_names:
  "(\<exists>foundVars. scanCodebase skipSelfFiles files = Some foundVars
      \<and> (\<forall>name \<in> fst ` set foundVars.
            isVarName name \<and> 3 \<le> length name \<and> name \<notin> set BLACKLIST))
   \<and> (\<forall>name \<in> fst ` set (scanEnvFilesOnly dir).
            isVarName name \<and> 2 \<le> length name \<and> name \<notin> set BLACKLIST)"
proof (intro conjI ballI)
  show "\<exists>foundVars. scanCodebase skipSelfFiles files = Some foundVars
      \<and> (\<forall>name \<in> fst ` set foundVars.
            isVarName name \<and> 3 \<le> length name \<and> name \<notin> set BLACKLIST)"
    by (rule scanCodebase_inv)
next
  fix name assume "name \<in> fst ` set (scanEnvFilesOnly dir)"
  with scanEnvFilesOnly_inv[of dir] have n: "isVarName name \<and> name \<notin> set BLACKLIST" by blast
  then show "isVarName name" "name \<notin> set BLACKLIST" by simp_all
  from n show "2 \<le> length name" by (simp add: isVarName_length)
qed

text \<open>A Python file that reads \<open>API_KEY\<close>, and a \<open>.env\<close> that declares \<open>DB\<close>.\<close>

theorem scan_names_witness:
  "scanCodebase False [(''app.py'', Some (''os.getenv('' @ [DQUOTE] @ ''API_KEY'' @ [DQUOTE] @ '')''))]
     = Some [(''API_KEY'', [''app.py''])]
   \<and> isVarName ''API_KEY'' \<and> 3 \<le> length ''API_KEY'' \<and> ''API_KEY'' \<notin> set BLACKLIST
   \<and> scanEnvFilesOnly [(''.env'', ''DB=1'')] = [(''DB'', [''.env''])]
   \<and> isVarName ''DB'' \<and> 2 \<le> length ''DB'' \<and> ''DB'' \<notin> set BLACKLIST"
proof -
  let ?files = "[(''app.py'', Some (''os.getenv('' @ [DQUOTE] @ ''API_KEY'' @ [DQUOTE] @ '')''))]"
  let ?dir = "[(''.env'', ''DB=1'')]"
  have e1: "scanCodebase False ?files = Some [(''API_KEY'', [''app.py''])]"
    by code_simp
  have e2: "scanEnvFilesOnly ?dir = [(''DB'', [''.env''])]"
    by (simp add: scanEnvFilesOnly_def ENV_SOURCE_FILES_def extractEnvKeysFromContent_def
      extractLine_def trim_def startsWith_def isWhiteSpace_def isVarName_def isUpper_def
      isNameChar_def BLACKLIST_def setAdd_def addOccurrence_def has_def)
  note t = scan_names[of False ?files ?dir]
  from t obtain foundVars where fv: "scanCodebase False ?files = Some foundVars"
    and deep: "\<forall>name \<in> fst ` set foundVars.
            isVarName name \<and> 3 \<le> length name \<and> name \<notin> set BLACKLIST"
    by (elim conjE exE)
  from fv e1 have "foundVars = [(''API_KEY'', [''app.py''])]" by simp
  then have "''API_KEY'' \<in> fst ` set foundVars" by simp
  from bspec[OF deep this] have d: "isVarName ''API_KEY'' \<and> 3 \<le> length ''API_KEY'' \<and> ''API_KEY'' \<notin> set BLACKLIST"
    .
  from t have shallow: "\<forall>name \<in> fst ` set (scanEnvFilesOnly ?dir).
            isVarName name \<and> 2 \<le> length name \<and> name \<notin> set BLACKLIST"
    by (rule conjunct2)
  have "''DB'' \<in> fst ` set (scanEnvFilesOnly ?dir)" unfolding e2 by simp
  from bspec[OF shallow this] have s: "isVarName ''DB'' \<and> 2 \<le> length ''DB'' \<and> ''DB'' \<notin> set BLACKLIST"
    .
  from e1 d e2 s show ?thesis by (intro conjI) (elim conjE, assumption)+
qed

section \<open>Value formatting\<close>

text \<open>
  C5, as the specification states it: \<open>formatValue\<close> of the empty string is the two
  double quotes and the key is written as \<open>KEY=""\<close>. The code does otherwise: the
  guard that returns the two quotes excludes the empty string.
\<close>

theorem formatValue_empty_counterexample:
  "formatValue (Str []) \<noteq> [DQUOTE, DQUOTE]
   \<and> fst (writeEnvFile None [(''KEY'', [])] []) \<noteq> ''KEY='' @ [DQUOTE, DQUOTE, LF]"
  by (simp add: writeEnvFile_def entryLine_def stripTrailingNewlines_def)

text \<open>
  C5, amended: \<open>formatValue\<close> of the empty string is the empty string, so a key
  confirmed with an empty value is written as the line \<open>KEY=\<close>; the two double quotes
  are the result for a value that is \<open>undefined\<close> or \<open>null\<close>.
\<close>

theorem formatValue_empty:
  "formatValue (Str []) = []
   \<and> entryLine key [] = key @ ''=''
   \<and> fst (writeEnvFile None [(''KEY'', [])] []) = ''KEY='' @ [LF]
   \<and> formatValue Undefined = [DQUOTE, DQUOTE]"
  by (simp add: writeEnvFile_def entryLine_def stripTrailingNewlines_def)

text \<open>
  C9, as the specification states it, fails at a value with a dollar sign: the value has
  none of the listed characters and is quoted all the same.
\<close>

theorem needsQuotes_dollar_counterexample:
  "\<not> specNeedsQuoting ''a$b'' \<and> formatValue (Str ''a$b'') = DQUOTE # ''a$b'' @ [DQUOTE]"
  by (simp add: specNeedsQuoting_def isWhiteSpace_def quoteTrigger_def escapeValue_def
      replaceAll_def)

text \<open>
  C9, amended: \<open>formatValue\<close> wraps a value in double quotes, escaped, exactly when the
  value contains one of the characters the specification lists or a dollar sign; every
  other value is written as it is given.
\<close>

theorem formatValue_quotes_iff:
  "formatValue (Str s) =
     (if specNeedsQuoting s \<or> CHR ''$'' \<in> set s then DQUOTE # escapeValue s @ [DQUOTE]
      else s)"
  by (auto simp: specNeedsQuoting_def quoteTrigger_def list_ex_iff)

text \<open>
  C4, as the specification states it, fails at the second value: the parser strips the
  surrounding quotes and leaves the backslashes that the writer put before the inner
  quotes.
\<close>

theorem quoting_round_trip_counterexample:
  "parseExistingEnv (Some (''KEY='' @ formatValue (Str (''say '' @ [DQUOTE] @ ''hi'' @ [DQUOTE]))))
     \<noteq> [(''KEY'', ''say '' @ [DQUOTE] @ ''hi'' @ [DQUOTE])]"
  by (simp add: isWhiteSpace_def quoteTrigger_def escapeValue_def replaceAll_def
      parseExistingEnv_def parseLine_def trim_def startsWith_def endsWith_def slice_1_m1_def)

text \<open>
  C4, amended: \<open>hello world\<close> is written as \<open>"hello world"\<close> and \<open>say "hi"\<close> as
  \<open>"say \"hi\""\<close>; parsing the line of the first recovers \<open>hello world\<close>, parsing the
  line of the second yields \<open>say \"hi\"\<close>, with the two backslashes kept.
\<close>

theorem quoting_format_and_reparse:
  "formatValue (Str ''hello world'') = DQUOTE # ''hello world'' @ [DQUOTE]
   \<and> formatValue (Str (''say '' @ [DQUOTE] @ ''hi'' @ [DQUOTE]))
       = DQUOTE # ''say '' @ [BACKSLASH, DQUOTE] @ ''hi'' @ [BACKSLASH, DQUOTE, DQUOTE]
   \<and> parseExistingEnv (Some (''KEY='' @ formatValue (Str ''hello world'')))
       = [(''KEY'', ''hello world'')]
   \<and> parseExistingEnv (Some (''KEY='' @ formatValue (Str (''say '' @ [DQUOTE] @ ''hi'' @ [DQUOTE]))))
       = [(''KEY'', ''say '' @ [BACKSLASH, DQUOTE] @ ''hi'' @ [BACKSLASH, DQUOTE])]"
  by (simp add: isWhiteSpace_def quoteTrigger_def escapeValue_def replaceAll_def
      parseExistingEnv_def parseLine_def trim_def startsWith_def endsWith_def slice_1_m1_def)

section \<open>The configuration parser\<close>

text \<open>
  C7: the parser returns the empty mapping for a file that does not exist; for the
  file whose only line is \<open>=foo\<close> it returns an entry under the empty key, where the
  claim has no entry.
\<close>

theorem parseExistingEnv_empty_key_entry:
  "parseExistingEnv None = [] \<and> parseExistingEnv (Some ''=foo'') = [([], ''foo'')]"
  by (simp add: parseExistingEnv_def parseLine_def trim_def startsWith_def endsWith_def
      slice_1_m1_def isWhiteSpace_def)

section \<open>Reconciliation\<close>

lemma hasUsableValue_iff:
  "hasUsableValue env k \<longleftrightarrow> (\<exists>v. map_of env k = Some v \<and> trim v \<noteq> [])"
  by (auto simp: hasUsableValue_def has_def)

text \<open>
  C3: a discovered key is already set exactly when the existing configuration has it
  with a value that is not empty after trimming; the summary counts the discovered keys,
  those already set, and as missing the keys that are absent or have a value that trims
  to the empty string, which is the total less the keys already set. The discovered keys
  are the keys of a \<open>Map\<close>, hence distinct.
\<close>

theorem reconciliation_counts:
  assumes "distinct (map fst foundVars)"
  shows "(\<forall>k. hasUsableValue env k \<longleftrightarrow> (\<exists>v. map_of env k = Some v \<and> trim v \<noteq> []))
    \<and> total (showScanResult foundVars env) = int (card (fst ` set foundVars))
    \<and> alreadySet (showScanResult foundVars env)
        = int (card {k \<in> fst ` set foundVars. \<exists>v. map_of env k = Some v \<and> trim v \<noteq> []})
    \<and> missing (showScanResult foundVars env)
        = int (card {k \<in> fst ` set foundVars.
                      map_of env k = None \<or> (\<exists>v. map_of env k = Some v \<and> trim v = [])})
    \<and> missing (showScanResult foundVars env)
        = total (showScanResult foundVars env) - alreadySet (showScanResult foundVars env)"
proof -
  let ?K = "fst ` set foundVars"
  let ?P = "\<lambda>k. \<exists>v. map_of env k = Some v \<and> trim v \<noteq> []"
  have t: "card ?K = length foundVars"
    using assms distinct_card[of "map fst foundVars"] by simp
  have "distinct (filter (hasUsableValue env) (map fst foundVars))"
    using assms by simp
  then have "card (set (filter (hasUsableValue env) (map fst foundVars)))
      = length (filter (hasUsableValue env) (map fst foundVars))"
    by (rule distinct_card)
  moreover have "set (filter (hasUsableValue env) (map fst foundVars)) = {k \<in> ?K. ?P k}"
    by (auto simp: hasUsableValue_iff)
  ultimately have a: "card {k \<in> ?K. ?P k}
      = length (filter (hasUsableValue env) (map fst foundVars))"
    by simp
  have split: "{k \<in> ?K. map_of env k = None \<or> (\<exists>v. map_of env k = Some v \<and> trim v = [])}
      = ?K - {k \<in> ?K. ?P k}"
    by auto
  have "card (?K - {k \<in> ?K. ?P k}) = card ?K - card {k \<in> ?K. ?P k}"
    by (rule card_Diff_subset) auto
  moreover have "card {k \<in> ?K. ?P k} \<le> card ?K"
    by (rule card_mono) auto
  ultimately have m: "int (card (?K - {k \<in> ?K. ?P k}))
      = int (card ?K) - int (card {k \<in> ?K. ?P k})"
    by simp
  show ?thesis
    unfolding split m
    by (simp add: showScanResult_def Let_def hasUsableValue_iff t a)
qed

theorem reconciliation_counts_witness:
  "distinct (map fst [(''FOO'', [''a.js'']), (''BAR'', []), (''BAZ'', [])])
   \<and> alreadySet (showScanResult [(''FOO'', [''a.js'']), (''BAR'', []), (''BAZ'', [])]
         [(''FOO'', []), (''BAR'', ''x'')]) = 1
   \<and> missing (showScanResult [(''FOO'', [''a.js'']), (''BAR'', []), (''BAZ'', [])]
         [(''FOO'', []), (''BAR'', ''x'')]) = 2"
proof -
  let ?fv = "[(''FOO'', [''a.js'']), (''BAR'', []), (''BAZ'', [])]"
  let ?env = "[(''FOO'', []), (''BAR'', ''x'')]"
  have h: "distinct (map fst ?fv)" by simp
  have a: "alreadySet (showScanResult ?fv ?env) = 1"
    by (simp add: showScanResult_def hasUsableValue_def has_def trim_def isWhiteSpace_def)
  have t: "total (showScanResult ?fv ?env) = 3"
    by (simp add: showScanResult_def)
  have "missing (showScanResult ?fv ?env)
      = total (showScanResult ?fv ?env) - alreadySet (showScanResult ?fv ?env)"
    using reconciliation_counts[OF h, of ?env] by (elim conjE)
  then have "missing (showScanResult ?fv ?env) = 2"
    by (simp add: a t)
  with h a show ?thesis by (intro conjI)
qed

end
